theory Spec2Isabelle
  imports Complex_Main
begin

section \<open>PageRank: the transition model, the sampling engine and the iterative engine\<close>

text \<open>
  The development embeds the three functions of \<^verbatim>\<open>pagerank.py\<close> that carry the
  algorithm: \<^verbatim>\<open>transition_model\<close>, \<^verbatim>\<open>sample_pagerank\<close> and
  \<^verbatim>\<open>iterate_pagerank\<close>. Python floats are idealised as \<^typ>\<open>real\<close>, so sums and
  quotients below are exact and a statement that depends on rounding is outside
  this model; every exception the interpreter can raise is a value of \<open>error\<close>;
  the pseudo-random generator is an explicit argument.
\<close>

subsection \<open>Python values: exceptions, dictionaries, link containers\<close>

type_synonym page = string

datatype error = KeyError | IndexError | ZeroDivisionError | TypeError | ValueError

text \<open>
  Sequencing of two computations that may raise: the second runs on the value of
  the first, and an exception of the first is passed on.
\<close>

definition seq :: "error + 'a \<Rightarrow> ('a \<Rightarrow> error + 'b) \<Rightarrow> error + 'b" where
  "seq m f = (case m of Inl e \<Rightarrow> Inl e | Inr v \<Rightarrow> f v)"

text \<open>
  A \<^verbatim>\<open>for x in xs: body\<close> loop over a state \<open>s\<close>; an exception in the body
  leaves the loop.
\<close>

fun for_loop :: "'a list \<Rightarrow> ('a \<Rightarrow> 's \<Rightarrow> error + 's) \<Rightarrow> 's \<Rightarrow> error + 's" where
  "for_loop [] body s = Inr s"
| "for_loop (x # xs) body s =
     (case body x s of Inl e \<Rightarrow> Inl e | Inr s' \<Rightarrow> for_loop xs body s')"

text \<open>
  A Python \<^verbatim>\<open>dict\<close> keeps its keys in insertion order: it is an association list
  with distinct keys. \<^verbatim>\<open>d[k]\<close> raises \<^verbatim>\<open>KeyError\<close> on a missing key;
  \<^verbatim>\<open>d[k] = v\<close> overwrites in place or appends a new key at the end.
\<close>

definition keys :: "('k \<times> 'v) list \<Rightarrow> 'k list" where
  "keys d = map fst d"

definition dict_values :: "('k \<times> 'v) list \<Rightarrow> 'v list" where
  "dict_values d = map snd d"

definition dict_get :: "('k \<times> 'v) list \<Rightarrow> 'k \<Rightarrow> error + 'v" where
  "dict_get d k = (case map_of d k of None \<Rightarrow> Inl KeyError | Some v \<Rightarrow> Inr v)"

fun dict_set :: "('k \<times> 'v) list \<Rightarrow> 'k \<Rightarrow> 'v \<Rightarrow> ('k \<times> 'v) list" where
  "dict_set [] k v = [(k, v)]"
| "dict_set ((k', v') # d) k v =
     (if k' = k then (k, v) # d else (k', v') # dict_set d k v)"

definition py_div :: "real \<Rightarrow> real \<Rightarrow> error + real" where
  "py_div a b = (if b = 0 then Inl ZeroDivisionError else Inr (a / b))"

text \<open>
  The value stored under a page of the corpus. \<^verbatim>\<open>crawl\<close> stores a \<^verbatim>\<open>set\<close>
  of page names; a hand-written corpus can also hold the literal \<^verbatim>\<open>{}\<close>, which
  is an empty \<^verbatim>\<open>dict\<close>. The code only takes the length of such a value, tests
  membership, iterates over it and compares it with \<^verbatim>\<open>{}\<close>, so both are given
  by their elements in iteration order (for a dict: its keys).
\<close>

datatype links = PySet "page list" | PyDict "page list"

fun elems :: "links \<Rightarrow> page list" where
  "elems (PySet xs) = xs"
| "elems (PyDict ks) = ks"

definition len :: "links \<Rightarrow> nat" where
  "len l = length (elems l)"

definition mem :: "page \<Rightarrow> links \<Rightarrow> bool" where
  "mem p l = (p \<in> set (elems l))"

text \<open>
  \<^verbatim>\<open>links == {}\<close>: a set never compares equal to a dict, whatever it holds; a
  dict equals \<^verbatim>\<open>{}\<close> when it has no key.
\<close>

fun eq_empty_dict :: "links \<Rightarrow> bool" where
  "eq_empty_dict (PySet xs) = False"
| "eq_empty_dict (PyDict ks) = (ks = [])"

type_synonym corpus = "(page \<times> links) list"

type_synonym distribution = "(page \<times> real) list"

subsection \<open>\<^verbatim>\<open>transition_model\<close>\<close>

text \<open>
  The function returns the corpus itself on the branch \<^verbatim>\<open>links == {}\<close> and the
  dictionary \<^verbatim>\<open>distribution\<close> otherwise.
\<close>

datatype tm_result = Graph corpus | Dist distribution

text \<open>Body of \<^verbatim>\<open>for link in corpus: distribution[link] = 1 / pages\<close>.\<close>

definition uniform_body :: "nat \<Rightarrow> page \<Rightarrow> distribution \<Rightarrow> error + distribution" where
  "uniform_body pages link distribution =
     seq (py_div 1 (real pages)) (\<lambda>v. Inr (dict_set distribution link v))"

text \<open>Body of \<^verbatim>\<open>for page in links: distribution[page] = damping_factor / len(links)\<close>.\<close>

definition link_body :: "links \<Rightarrow> real \<Rightarrow> page \<Rightarrow> distribution \<Rightarrow> error + distribution" where
  "link_body links damping_factor page distribution =
     seq (py_div damping_factor (real (len links))) (\<lambda>v. Inr (dict_set distribution page v))"

text \<open>
  Body of the last loop: \<^verbatim>\<open>distribution[page] += t\<close> reads the old entry first
  (\<^verbatim>\<open>KeyError\<close> when there is none), then evaluates \<open>t\<close>, then stores.
\<close>

definition teleport_body :: "corpus \<Rightarrow> links \<Rightarrow> real \<Rightarrow> page \<Rightarrow> distribution \<Rightarrow> error + distribution" where
  "teleport_body corpus links damping_factor page distribution =
     (if mem page links then
        seq (dict_get distribution page) (\<lambda>old.
        seq (py_div (1 - damping_factor) (real (length corpus))) (\<lambda>t.
        Inr (dict_set distribution page (old + t))))
      else
        seq (py_div (1 - damping_factor) (real (length corpus))) (\<lambda>t.
        Inr (dict_set distribution page t)))"

definition transition_model :: "corpus \<Rightarrow> page \<Rightarrow> real \<Rightarrow> error + tm_result" where
  "transition_model corpus page damping_factor =
     seq (dict_get corpus page) (\<lambda>links.
     let pages = length corpus in
     if eq_empty_dict links then
       seq (for_loop (keys corpus) (uniform_body pages) []) (\<lambda>distribution.
       Inr (Graph corpus))
     else
       seq (for_loop (elems links) (link_body links damping_factor) []) (\<lambda>distribution.
       seq (for_loop (keys corpus) (teleport_body corpus links damping_factor) distribution) (\<lambda>distribution.
       Inr (Dist distribution))))"

subsection \<open>The random source\<close>

text \<open>
  The module-level generator is made explicit. \<^verbatim>\<open>random.choice(seq)\<close> raises
  \<^verbatim>\<open>IndexError\<close> on an empty sequence and otherwise returns
  \<^verbatim>\<open>seq[_randbelow(len(seq))]\<close>; the number below \<^verbatim>\<open>len(seq)\<close> is \<open>r mod length seq\<close>
  for the generator's next natural number \<open>r\<close>.
\<close>

definition choice :: "'a list \<Rightarrow> nat \<Rightarrow> error + 'a" where
  "choice xs r = (if xs = [] then Inl IndexError else Inr (xs ! (r mod length xs)))"

text \<open>\<^verbatim>\<open>itertools.accumulate\<close>: the running totals of the weights.\<close>

fun accumulate :: "real \<Rightarrow> real list \<Rightarrow> real list" where
  "accumulate acc [] = []"
| "accumulate acc (w # ws) = (acc + w) # accumulate (acc + w) ws"

text \<open>\<^verbatim>\<open>bisect.bisect_right(a, x, lo, hi)\<close>, the binary search of the library.\<close>

function bisect :: "real list \<Rightarrow> real \<Rightarrow> nat \<Rightarrow> nat \<Rightarrow> nat" where
  "bisect a x lo hi =
     (if lo < hi then
        (let mid = (lo + hi) div 2 in
         if x < a ! mid then bisect a x lo mid else bisect a x (mid + 1) hi)
      else lo)"
  by pat_completeness auto
termination
  by (relation "measure (\<lambda>(a, x, lo, hi). hi - lo)") auto

text \<open>
  \<^verbatim>\<open>random.choices(population, weights, k=1).pop()\<close> for numeric weights, with \<open>u\<close>
  the value of \<^verbatim>\<open>random()\<close>: the totals must be as many as the population, the
  last total must be positive, and the element is found by bisection of
  \<open>u * tot\<close> in the running totals, between \<open>0\<close> and \<open>n - 1\<close>.
\<close>

definition choices :: "'a list \<Rightarrow> real list \<Rightarrow> real \<Rightarrow> error + 'a" where
  "choices population weights u =
     (let n = length population; cum_weights = accumulate 0 weights in
      if length cum_weights \<noteq> n then Inl ValueError
      else if cum_weights = [] then Inl IndexError
      else
        let tot = last cum_weights in
        if tot \<le> 0 then Inl ValueError
        else Inr (population ! bisect cum_weights (u * tot) 0 (n - 1)))"

subsection \<open>\<^verbatim>\<open>sample_pagerank\<close>\<close>

text \<open>
  \<^verbatim>\<open>random.choices(list(prob), weights=prob.values(), k=1).pop()\<close>. When \<open>prob\<close> is
  the corpus that \<^verbatim>\<open>transition_model\<close> returned, the weights are link containers
  and adding them (to each other, or to \<^verbatim>\<open>0.0\<close>) raises \<^verbatim>\<open>TypeError\<close>.
\<close>

definition draw :: "tm_result \<Rightarrow> real \<Rightarrow> error + page" where
  "draw prob u =
     (case prob of
        Graph g \<Rightarrow> Inl TypeError
      | Dist distribution \<Rightarrow> choices (keys distribution) (dict_values distribution) u)"

text \<open>
  \<^verbatim>\<open>if page in pagerank: pagerank[page] += 1 else: pagerank[page] = 1\<close>
\<close>

definition tally :: "page \<Rightarrow> distribution \<Rightarrow> error + distribution" where
  "tally page pagerank =
     (if page \<in> set (keys pagerank) then
        seq (dict_get pagerank page) (\<lambda>c. Inr (dict_set pagerank page (c + 1)))
      else Inr (dict_set pagerank page 1))"

text \<open>
  Body of \<^verbatim>\<open>for i in range(n - 1)\<close>; the state is the pair of the variables
  \<open>page\<close> and \<open>pagerank\<close>, and \<open>us i\<close> is the value of \<^verbatim>\<open>random()\<close> in round \<open>i\<close>.
\<close>

definition sample_step ::
  "corpus \<Rightarrow> real \<Rightarrow> (nat \<Rightarrow> real) \<Rightarrow> nat \<Rightarrow> page \<times> distribution \<Rightarrow> error + page \<times> distribution" where
  "sample_step corpus damping_factor us i st =
     (case st of (page, pagerank) \<Rightarrow>
        seq (transition_model corpus page damping_factor) (\<lambda>prob.
        seq (draw prob (us i)) (\<lambda>page'.
        seq (tally page' pagerank) (\<lambda>pagerank'.
        Inr (page', pagerank')))))"

text \<open>Body of \<^verbatim>\<open>for page in pagerank: pagerank[page] = pagerank[page] / n\<close>.\<close>

definition frequency_body :: "int \<Rightarrow> page \<Rightarrow> distribution \<Rightarrow> error + distribution" where
  "frequency_body n page pagerank =
     seq (dict_get pagerank page) (\<lambda>c.
     seq (py_div c (real_of_int n)) (\<lambda>v.
     Inr (dict_set pagerank page v)))"

text \<open>
  \<open>r0\<close> is the generator's number for the starting page, \<open>us\<close> its values of
  \<^verbatim>\<open>random()\<close>; \<^verbatim>\<open>range(n - 1)\<close> has \<open>nat (n - 1)\<close> rounds (none when \<open>n \<le> 1\<close>).
\<close>

definition sample_pagerank ::
  "corpus \<Rightarrow> real \<Rightarrow> int \<Rightarrow> nat \<Rightarrow> (nat \<Rightarrow> real) \<Rightarrow> error + distribution" where
  "sample_pagerank corpus damping_factor n r0 us =
     seq (choice (keys corpus) r0) (\<lambda>page.
     seq (for_loop [0..<nat (n - 1)] (sample_step corpus damping_factor us) (page, [])) (\<lambda>st.
     case st of (page, pagerank) \<Rightarrow>
       for_loop (keys pagerank) (frequency_body n) pagerank))"

text \<open>
  The pages that the loop variable \<open>page\<close> takes in the rounds \<open>is\<close> of the walk
  from a page: the visits that the loop tallies.
\<close>

fun visits :: "corpus \<Rightarrow> real \<Rightarrow> (nat \<Rightarrow> real) \<Rightarrow> page \<Rightarrow> nat list \<Rightarrow> error + page list" where
  "visits corpus damping_factor us page [] = Inr []"
| "visits corpus damping_factor us page (i # is) =
     seq (transition_model corpus page damping_factor) (\<lambda>prob.
     seq (draw prob (us i)) (\<lambda>page'.
     seq (visits corpus damping_factor us page' is) (\<lambda>ps.
     Inr (page' # ps))))"

subsection \<open>\<^verbatim>\<open>iterate_pagerank\<close>\<close>

text \<open>Body of \<^verbatim>\<open>for page in corpus: d[page] = 1/len(corpus)\<close>.\<close>

definition init_body :: "corpus \<Rightarrow> page \<Rightarrow> distribution \<Rightarrow> error + distribution" where
  "init_body corpus page d =
     seq (py_div 1 (real (length corpus))) (\<lambda>v. Inr (dict_set d page v))"

text \<open>
  Body of \<^verbatim>\<open>for page_i, pages in corpus.items()\<close>, which adds to \<open>prob\<close> the share
  of \<open>page_i\<close> in the rank of \<open>page\<close>.
\<close>

definition inner_body ::
  "corpus \<Rightarrow> distribution \<Rightarrow> page \<Rightarrow> page \<times> links \<Rightarrow> real \<Rightarrow> error + real" where
  "inner_body corpus d_copy page item prob =
     (case item of (page_i, pages) \<Rightarrow>
        if mem page pages then
          seq (dict_get d_copy page_i) (\<lambda>r.
          seq (py_div r (real (len pages))) (\<lambda>q.
          Inr (prob + q)))
        else if len pages = 0 then
          seq (py_div 1 (real (length corpus))) (\<lambda>q.
          Inr (prob + q))
        else Inr prob)"

text \<open>
  Body of \<^verbatim>\<open>for page in corpus.keys()\<close>: the state is the pair of the dictionaries
  \<open>d\<close> and \<open>d_diff\<close>; \<open>d_copy\<close> is the copy taken before the sweep.
\<close>

definition sweep_body ::
  "corpus \<Rightarrow> real \<Rightarrow> distribution \<Rightarrow> page \<Rightarrow> distribution \<times> distribution
     \<Rightarrow> error + distribution \<times> distribution" where
  "sweep_body corpus damping_factor d_copy page st =
     (case st of (d, d_diff) \<Rightarrow>
        seq (for_loop corpus (inner_body corpus d_copy page) 0) (\<lambda>prob.
        seq (py_div (1 - damping_factor) (real (length corpus))) (\<lambda>t.
        let d' = dict_set d page (t + damping_factor * prob) in
        seq (dict_get d_copy page) (\<lambda>old.
        seq (dict_get d' page) (\<lambda>new.
        Inr (d', dict_set d_diff page \<bar>old - new\<bar>))))))"

text \<open>
  Body of \<^verbatim>\<open>for page in d_diff: if d_diff[page] > 0.001: not_convergent = True\<close>.
\<close>

definition check_body :: "distribution \<Rightarrow> page \<Rightarrow> bool \<Rightarrow> error + bool" where
  "check_body d_diff page not_convergent =
     seq (dict_get d_diff page) (\<lambda>v.
     Inr (if v > 1 / 1000 then True else not_convergent))"

text \<open>
  The \<^verbatim>\<open>while not_convergent\<close> loop, entered with \<open>not_convergent\<close> true. It
  has no bound on the number of sweeps: \<open>None\<close> is the run that never leaves it.
  The ranks are real numbers here and IEEE doubles in the code, so the number of
  sweeps of the model, and whether the loop is left at all, is that of the code
  only where no rank is rounded on the way.
\<close>

partial_function (option) while_loop ::
  "corpus \<Rightarrow> real \<Rightarrow> distribution \<Rightarrow> (error + distribution) option" where
  "while_loop corpus damping_factor d =
     (case for_loop (keys corpus) (sweep_body corpus damping_factor d) (d, []) of
        Inl e \<Rightarrow> Some (Inl e)
      | Inr st \<Rightarrow>
          (case for_loop (keys (snd st)) (check_body (snd st)) False of
             Inl e \<Rightarrow> Some (Inl e)
           | Inr not_convergent \<Rightarrow>
               if not_convergent then while_loop corpus damping_factor (fst st)
               else Some (Inr (fst st))))"

declare while_loop.simps [code]

text \<open>Body of \<^verbatim>\<open>for k in d: sum_pagerank += d[k]\<close>.\<close>

definition sum_body :: "distribution \<Rightarrow> page \<Rightarrow> real \<Rightarrow> error + real" where
  "sum_body d k sum_pagerank = seq (dict_get d k) (\<lambda>v. Inr (sum_pagerank + v))"

text \<open>Body of \<^verbatim>\<open>for k in d: d[k] = d[k] / sum_pagerank\<close>.\<close>

definition normalize_body :: "real \<Rightarrow> page \<Rightarrow> distribution \<Rightarrow> error + distribution" where
  "normalize_body sum_pagerank k d =
     seq (dict_get d k) (\<lambda>v.
     seq (py_div v sum_pagerank) (\<lambda>q.
     Inr (dict_set d k q)))"

definition normalize :: "distribution \<Rightarrow> error + distribution" where
  "normalize d =
     seq (for_loop (keys d) (sum_body d) 0) (\<lambda>sum_pagerank.
     for_loop (keys d) (normalize_body sum_pagerank) d)"

definition iterate_pagerank :: "corpus \<Rightarrow> real \<Rightarrow> (error + distribution) option" where
  "iterate_pagerank corpus damping_factor =
     (case for_loop (keys corpus) (init_body corpus) [] of
        Inl e \<Rightarrow> Some (Inl e)
      | Inr d \<Rightarrow>
          (case while_loop corpus damping_factor d of
             None \<Rightarrow> None
           | Some (Inl e) \<Rightarrow> Some (Inl e)
           | Some (Inr d') \<Rightarrow> Some (normalize d')))"

text \<open>
  The recurrence of the specification, for comparison with the sweep of the
  code: \<open>(1 - d)/|V|\<close>, plus \<open>d\<close> times the shares \<open>rank i / |successors i|\<close> of
  the pages \<open>i\<close> that link to \<open>p\<close>, plus \<open>d\<close> times the shares \<open>rank i / |V|\<close> of
  the pages \<open>i\<close> without links.
\<close>

definition spec_rank :: "corpus \<Rightarrow> real \<Rightarrow> (page \<Rightarrow> real) \<Rightarrow> page \<Rightarrow> real" where
  "spec_rank corpus damping_factor rank p =
     (1 - damping_factor) / real (length corpus)
     + damping_factor * (\<Sum>(i, l) \<leftarrow> corpus. if mem p l then rank i / real (len l) else 0)
     + damping_factor * (\<Sum>(i, l) \<leftarrow> corpus. if len l = 0 then rank i / real (length corpus) else 0)"

subsection \<open>Notions used in the statements about \<^verbatim>\<open>iterate_pagerank\<close>\<close>

text \<open>
  The dictionary over the keys \<open>ks\<close> that holds the rank \<open>rank p\<close> under \<open>p\<close>.
\<close>

definition rank_dict :: "page list \<Rightarrow> (page \<Rightarrow> real) \<Rightarrow> distribution" where
  "rank_dict ks rank = map (\<lambda>p. (p, rank p)) ks"

text \<open>
  The value of \<open>prob\<close> after the inner loop for a page \<open>p\<close>, and the value stored
  in \<^verbatim>\<open>d[page]\<close>, as functions of the ranks of the copy.
\<close>

definition code_sum :: "corpus \<Rightarrow> (page \<Rightarrow> real) \<Rightarrow> page \<Rightarrow> real" where
  "code_sum corpus rank p =
     (\<Sum>(i, l) \<leftarrow> corpus.
        if mem p l then rank i / real (len l)
        else if len l = 0 then 1 / real (length corpus) else 0)"

definition code_rank :: "corpus \<Rightarrow> real \<Rightarrow> (page \<Rightarrow> real) \<Rightarrow> page \<Rightarrow> real" where
  "code_rank corpus damping_factor rank p =
     (1 - damping_factor) / real (length corpus) + damping_factor * code_sum corpus rank p"

text \<open>
  Two link containers with the same elements and the same length, and two
  corpora with the same keys in the same order whose containers correspond in
  this way: the same graph, up to the order in which each set yields its
  elements (which changes from one interpreter process to the next).
\<close>

definition same_links :: "links \<Rightarrow> links \<Rightarrow> bool" where
  "same_links l l' = (set (elems l) = set (elems l') \<and> len l = len l')"

definition same_graph :: "corpus \<Rightarrow> corpus \<Rightarrow> bool" where
  "same_graph corpus corpus' =
     (keys corpus = keys corpus' \<and> list_all2 same_links (dict_values corpus) (dict_values corpus'))"

text \<open>
  A graph as the specification describes it, in which moreover every page has
  a successor: distinct keys, and under each key a non-empty collection of
  distinct pages that are keys of the corpus.
\<close>

definition every_page_links :: "corpus \<Rightarrow> bool" where
  "every_page_links corpus =
     (distinct (keys corpus) \<and>
      list_all (\<lambda>l. elems l \<noteq> [] \<and> distinct (elems l) \<and> set (elems l) \<subseteq> set (keys corpus))
        (dict_values corpus))"

subsection \<open>Basic facts about the Python values\<close>

lemma seq_Inr [simp]: "seq (Inr v) f = f v"
  by (simp add: seq_def)

lemma seq_Inl [simp]: "seq (Inl e) f = Inl e"
  by (simp add: seq_def)

lemma keys_Nil [simp]: "keys [] = []"
  by (simp add: keys_def)

lemma keys_dict_set_list:
  "keys (dict_set d k v) = (if k \<in> set (keys d) then keys d else keys d @ [k])"
  by (induction d) (force simp: keys_def)+

lemma keys_dict_set: "set (keys (dict_set d k v)) = insert k (set (keys d))"
  by (auto simp: keys_dict_set_list)

lemma distinct_dict_set: "distinct (keys d) \<Longrightarrow> distinct (keys (dict_set d k v))"
  by (simp add: keys_dict_set_list)

lemma dict_get_present:
  "k \<in> set (keys d) \<Longrightarrow> \<exists>v. dict_get d k = Inr v"
proof -
  assume "k \<in> set (keys d)"
  then have "map_of d k \<noteq> None"
    by (simp add: keys_def map_of_eq_None_iff)
  then obtain v where "map_of d k = Some v" by blast
  then show ?thesis by (simp add: dict_get_def)
qed

lemma dict_get_value: "dict_get d k = Inr c \<Longrightarrow> c \<in> set (dict_values d)"
  by (auto simp: dict_get_def dict_values_def split: option.splits dest!: map_of_SomeD) force

lemma dict_set_append: "p \<notin> set (keys d) \<Longrightarrow> dict_set d p v = d @ [(p, v)]"
  by (induction d) (auto simp: keys_def)

lemma dict_set_sum:
  "dict_get d k = Inr c \<Longrightarrow>
   sum_list (dict_values (dict_set d k v)) = sum_list (dict_values d) - c + (v::real)"
  by (induction d) (auto simp: dict_get_def dict_values_def split: option.splits if_splits)

lemma dict_set_sum_new:
  "k \<notin> set (keys d) \<Longrightarrow> sum_list (dict_values (dict_set d k v)) = sum_list (dict_values d) + (v::real)"
  by (simp add: dict_set_append dict_values_def)

lemma dict_values_dict_set:
  "set (dict_values (dict_set d k v)) \<subseteq> insert v (set (dict_values d))"
proof (induction d)
  case Nil
  show ?case by (simp add: dict_values_def)
next
  case (Cons a d)
  obtain k' v' where a: "a = (k', v')" by (cases a)
  show ?case
  proof (cases "k' = k")
    case True
    then show ?thesis by (auto simp: a dict_values_def)
  next
    case False
    then show ?thesis using Cons.IH by (auto simp: a dict_values_def)
  qed
qed

subsection \<open>Dictionaries given by a function on their keys\<close>

lemma keys_rank_dict [simp]: "keys (rank_dict ks x) = ks"
  by (simp add: keys_def rank_dict_def comp_def)

lemma dict_values_rank_dict [simp]: "dict_values (rank_dict ks x) = map x ks"
  by (simp add: dict_values_def rank_dict_def comp_def)

lemma dict_get_rank_dict: "p \<in> set ks \<Longrightarrow> dict_get (rank_dict ks x) p = Inr (x p)"
proof -
  assume "p \<in> set ks"
  then have "map_of (rank_dict ks x) p = Some (x p)"
    by (induction ks) (auto simp: rank_dict_def)
  then show ?thesis by (simp add: dict_get_def)
qed

lemma dict_set_rank_dict:
  "distinct ks \<Longrightarrow> p \<in> set ks \<Longrightarrow> dict_set (rank_dict ks x) p v = rank_dict ks (x(p := v))"
  by (induction ks) (auto simp: rank_dict_def)

lemma rank_dict_cong: "(\<And>p. p \<in> set ks \<Longrightarrow> x p = y p) \<Longrightarrow> rank_dict ks x = rank_dict ks y"
  by (simp add: rank_dict_def)

lemma rank_dict_append: "rank_dict (ks @ ks') x = rank_dict ks x @ rank_dict ks' x"
  by (simp add: rank_dict_def)

lemma dict_as_rank_dict: "distinct (keys d) \<Longrightarrow> \<exists>z. d = rank_dict (keys d) z"
proof (induction d)
  case Nil
  then show ?case by (simp add: rank_dict_def)
next
  case (Cons kv d)
  obtain k v where kv: "kv = (k, v)" by (cases kv)
  from Cons.prems have "distinct (keys d)" and k: "k \<notin> set (keys d)" by (auto simp: keys_def kv)
  with Cons.IH obtain z where z: "d = rank_dict (keys d) z" by blast
  have "rank_dict (keys d) (z(k := v)) = rank_dict (keys d) z"
    using k by (intro rank_dict_cong) auto
  with z have "kv # d = rank_dict (keys (kv # d)) (z(k := v))"
    by (simp add: kv keys_def rank_dict_def)
  then show ?case by blast
qed

subsection \<open>The loops that sum the values and divide each of them\<close>

lemma sum_loop:
  "set xs \<subseteq> set ks \<Longrightarrow>
   for_loop xs (sum_body (rank_dict ks y)) acc = Inr (acc + (\<Sum>p \<leftarrow> xs. y p))"
proof (induction xs arbitrary: acc)
  case Nil
  then show ?case by simp
next
  case (Cons p xs)
  then have p: "p \<in> set ks" and rest: "set xs \<subseteq> set ks" by auto
  show ?case
    using Cons.IH [OF rest] by (simp add: sum_body_def dict_get_rank_dict [OF p] add.assoc)
qed

lemma normalize_loop:
  assumes "distinct ks" "s \<noteq> 0"
  shows "distinct xs \<Longrightarrow> set xs \<subseteq> set ks \<Longrightarrow>
     for_loop xs (normalize_body s) (rank_dict ks z) =
       Inr (rank_dict ks (\<lambda>p. if p \<in> set xs then z p / s else z p))"
proof (induction xs arbitrary: z)
  case Nil
  then show ?case by simp
next
  case (Cons p xs)
  then have p: "p \<in> set ks" "p \<notin> set xs" and rest: "distinct xs" "set xs \<subseteq> set ks" by auto
  have step: "normalize_body s p (rank_dict ks z) = Inr (rank_dict ks (z(p := z p / s)))"
    using assms(2)
    by (simp add: normalize_body_def dict_get_rank_dict [OF p(1)] py_div_def
        dict_set_rank_dict [OF assms(1) p(1)])
  have eq: "rank_dict ks (\<lambda>q. if q \<in> set xs then (z(p := z p / s)) q / s else (z(p := z p / s)) q)
      = rank_dict ks (\<lambda>q. if q \<in> set (p # xs) then z q / s else z q)"
    using p(2) by (intro rank_dict_cong) auto
  have "for_loop (p # xs) (normalize_body s) (rank_dict ks z)
      = for_loop xs (normalize_body s) (rank_dict ks (z(p := z p / s)))"
    by (simp add: step)
  also have "\<dots> = Inr (rank_dict ks
       (\<lambda>q. if q \<in> set xs then (z(p := z p / s)) q / s else (z(p := z p / s)) q))"
    by (rule Cons.IH [OF rest])
  also have "\<dots> = Inr (rank_dict ks (\<lambda>q. if q \<in> set (p # xs) then z q / s else z q))"
    by (simp only: eq)
  finally show ?case .
qed

lemma normalize_rank_dict:
  assumes "distinct ks" "(\<Sum>p \<leftarrow> ks. y p) \<noteq> 0"
  shows "normalize (rank_dict ks y) = Inr (rank_dict ks (\<lambda>p. y p / (\<Sum>q \<leftarrow> ks. y q)))"
proof -
  have "rank_dict ks (\<lambda>p. if p \<in> set ks then y p / (\<Sum>q \<leftarrow> ks. y q) else y p)
      = rank_dict ks (\<lambda>p. y p / (\<Sum>q \<leftarrow> ks. y q))"
    by (rule rank_dict_cong) simp
  then show ?thesis
    using sum_loop [of ks ks y 0] normalize_loop [OF assms assms(1), of y]
    by (simp add: normalize_def)
qed

lemma frequency_body_normalize: "frequency_body n = normalize_body (real_of_int n)"
  by (intro ext) (simp add: frequency_body_def normalize_body_def)

subsection \<open>\<^verbatim>\<open>transition_model\<close> never raises on a page of the corpus\<close>

lemma uniform_loop_ok:
  "pages \<noteq> 0 \<Longrightarrow> \<exists>r. for_loop xs (uniform_body pages) s = Inr r"
  by (induction xs arbitrary: s) (auto simp: uniform_body_def py_div_def)

lemma link_loop_ok:
  "len links \<noteq> 0 \<Longrightarrow>
   \<exists>r. for_loop xs (link_body links d) s = Inr r \<and> set (keys r) = set xs \<union> set (keys s)"
proof (induction xs arbitrary: s)
  case Nil
  then show ?case by simp
next
  case (Cons x xs)
  from Cons.IH [OF Cons.prems, of "dict_set s x (d / real (len links))"]
  show ?case using Cons.prems by (auto simp: link_body_def py_div_def keys_dict_set)
qed

lemma teleport_loop_ok:
  "length corpus \<noteq> 0 \<Longrightarrow> set (elems links) \<subseteq> set (keys s) \<Longrightarrow>
   \<exists>r. for_loop xs (teleport_body corpus links d) s = Inr r"
proof (induction xs arbitrary: s)
  case Nil
  then show ?case by simp
next
  case (Cons x xs)
  show ?case
  proof (cases "mem x links")
    case True
    then have "x \<in> set (keys s)" using Cons.prems by (auto simp: mem_def)
    then obtain old where old: "dict_get s x = Inr old" using dict_get_present by fastforce
    have "set (elems links) \<subseteq> set (keys (dict_set s x (old + (1 - d) / real (length corpus))))"
      using Cons.prems by (auto simp: keys_dict_set)
    from Cons.IH [OF Cons.prems(1) this] show ?thesis
      using True old Cons.prems(1) by (simp add: teleport_body_def py_div_def)
  next
    case False
    have "set (elems links) \<subseteq> set (keys (dict_set s x ((1 - d) / real (length corpus))))"
      using Cons.prems by (auto simp: keys_dict_set)
    from Cons.IH [OF Cons.prems(1) this] show ?thesis
      using False Cons.prems(1) by (simp add: teleport_body_def py_div_def)
  qed
qed

text \<open>
  Claim C9. For every corpus and every page that is a key of it,
  \<^verbatim>\<open>transition_model\<close> returns a value and raises nothing: the lookup
  \<^verbatim>\<open>corpus[page]\<close> succeeds, \<^verbatim>\<open>damping_factor / len(links)\<close> is evaluated only
  inside the loop over a non-empty \<open>links\<close>, the divisions by \<^verbatim>\<open>len(corpus)\<close>
  only inside loops over the non-empty corpus, and \<^verbatim>\<open>distribution[page] +=\<close>
  only reads keys that the loop over \<open>links\<close> has stored.
\<close>

theorem transition_model_returns:
  "page \<in> set (keys corpus) \<Longrightarrow> \<exists>r. transition_model corpus page damping_factor = Inr r"
proof -
  assume member: "page \<in> set (keys corpus)"
  then obtain links where links: "dict_get corpus page = Inr links"
    using dict_get_present by fastforce
  from member have nonempty: "length corpus \<noteq> 0" by (auto simp: keys_def)
  show ?thesis
  proof (cases "eq_empty_dict links")
    case True
    from uniform_loop_ok [OF nonempty] obtain r
      where "for_loop (keys corpus) (uniform_body (length corpus)) [] = Inr r" by blast
    then show ?thesis using links True by (simp add: transition_model_def)
  next
    case False
    show ?thesis
    proof (cases "elems links = []")
      case True
      have "set (elems links) \<subseteq> set (keys ([]::distribution))" using True by simp
      from teleport_loop_ok [OF nonempty this] obtain r
        where "for_loop (keys corpus) (teleport_body corpus links damping_factor) [] = Inr r" by blast
      then show ?thesis using links False True by (simp add: transition_model_def)
    next
      case nonnil: False
      then have "len links \<noteq> 0" by (simp add: len_def)
      from link_loop_ok [OF this] obtain r1
        where r1: "for_loop (elems links) (link_body links damping_factor) [] = Inr r1"
          and k1: "set (keys r1) = set (elems links) \<union> set (keys ([]::distribution))" by blast
      from k1 have "set (elems links) \<subseteq> set (keys r1)" by simp
      from teleport_loop_ok [OF nonempty this] obtain r
        where "for_loop (keys corpus) (teleport_body corpus links damping_factor) r1 = Inr r" by blast
      then show ?thesis using links False r1 by (simp add: transition_model_def)
    qed
  qed
qed

theorem transition_model_returns_witness:
  "''2.html'' \<in> set (keys [(''1.html'', PySet [''2.html'']), (''2.html'', PySet [])]) \<and>
   (\<exists>r. transition_model [(''1.html'', PySet [''2.html'']), (''2.html'', PySet [])] ''2.html'' (17/20) = Inr r)"
  using transition_model_returns
    [of "''2.html''" "[(''1.html'', PySet [''2.html'']), (''2.html'', PySet [])]" "17/20"]
  by (simp add: keys_def)

subsection \<open>\<^verbatim>\<open>transition_model\<close> on a page with links\<close>

text \<open>
  For a page that has at least one link the two loops do build a probability
  distribution: the loop over the links stores \<open>d / len(links)\<close> once per link, the
  loop over the corpus adds \<open>(1 - d) / len(corpus)\<close> once per page, so the values
  sum to \<open>d + (1 - d) = 1\<close>, and each is positive.
\<close>

lemma link_loop_sum:
  assumes "len l \<noteq> 0"
  shows "distinct xs \<Longrightarrow> set xs \<inter> set (keys acc) = {} \<Longrightarrow>
     \<exists>r. for_loop xs (link_body l d) acc = Inr r \<and>
       set (keys r) = set (keys acc) \<union> set xs \<and>
       sum_list (dict_values r) = sum_list (dict_values acc) + real (length xs) * (d / real (len l)) \<and>
       set (dict_values r) \<subseteq> insert (d / real (len l)) (set (dict_values acc))"
proof (induction xs arbitrary: acc)
  case Nil
  then show ?case by auto
next
  case (Cons p xs)
  let ?a = "d / real (len l)"
  let ?acc = "dict_set acc p ?a"
  have step: "link_body l d p acc = Inr ?acc"
    using assms by (simp add: link_body_def py_div_def)
  have new: "p \<notin> set (keys acc)" using Cons.prems by auto
  have "distinct xs" "set xs \<inter> set (keys ?acc) = {}"
    using Cons.prems by (auto simp: keys_dict_set)
  from Cons.IH [OF this] obtain r where r: "for_loop xs (link_body l d) ?acc = Inr r"
    and k: "set (keys r) = set (keys ?acc) \<union> set xs"
    and s: "sum_list (dict_values r) = sum_list (dict_values ?acc) + real (length xs) * ?a"
    and v: "set (dict_values r) \<subseteq> insert ?a (set (dict_values ?acc))"
    by blast
  have "for_loop (p # xs) (link_body l d) acc = Inr r" using step r by simp
  moreover have "set (keys r) = set (keys acc) \<union> set (p # xs)"
    using k by (auto simp: keys_dict_set)
  moreover have "sum_list (dict_values r) = sum_list (dict_values acc) + real (length (p # xs)) * ?a"
    using s dict_set_sum_new [OF new, of ?a] by (simp add: distrib_right add_divide_distrib)
  moreover have "set (dict_values r) \<subseteq> insert ?a (set (dict_values acc))"
    using v dict_values_dict_set [of acc p ?a] by auto
  ultimately show ?case by blast
qed

lemma teleport_loop_sum:
  assumes "length corpus \<noteq> 0" "d < 1"
  shows "distinct xs \<Longrightarrow> set (elems l) \<subseteq> set (keys acc) \<Longrightarrow>
     set xs \<inter> (set (keys acc) - set (elems l)) = {} \<Longrightarrow> \<forall>v \<in> set (dict_values acc). 0 < v \<Longrightarrow>
     \<exists>r. for_loop xs (teleport_body corpus l d) acc = Inr r \<and>
       set (keys r) = set (keys acc) \<union> set xs \<and>
       sum_list (dict_values r) =
         sum_list (dict_values acc) + real (length xs) * ((1 - d) / real (length corpus)) \<and>
       (\<forall>v \<in> set (dict_values r). 0 < v)"
proof (induction xs arbitrary: acc)
  case Nil
  then show ?case by auto
next
  case (Cons p xs)
  let ?t = "(1 - d) / real (length corpus)"
  have t: "0 < ?t" using assms by simp
  have "\<exists>acc'. teleport_body corpus l d p acc = Inr acc' \<and>
      set (keys acc') = insert p (set (keys acc)) \<and>
      sum_list (dict_values acc') = sum_list (dict_values acc) + ?t \<and>
      (\<forall>v \<in> set (dict_values acc'). 0 < v)"
  proof (cases "mem p l")
    case True
    then have "p \<in> set (keys acc)" using Cons.prems(2) by (auto simp: mem_def)
    then obtain old where old: "dict_get acc p = Inr old" using dict_get_present by fastforce
    have "0 < old" using dict_get_value [OF old] Cons.prems(4) by blast
    then have "\<forall>v \<in> set (dict_values (dict_set acc p (old + ?t))). 0 < v"
      using dict_values_dict_set [of acc p "old + ?t"] Cons.prems(4) t by auto
    then show ?thesis
      using True old assms(1) dict_set_sum [OF old, of "old + ?t"]
      by (simp add: teleport_body_def py_div_def keys_dict_set)
  next
    case False
    then have new: "p \<notin> set (keys acc)" using Cons.prems(3) by (auto simp: mem_def)
    have "\<forall>v \<in> set (dict_values (dict_set acc p ?t)). 0 < v"
      using dict_values_dict_set [of acc p ?t] Cons.prems(4) t by auto
    then show ?thesis
      using False assms(1) dict_set_sum_new [OF new, of ?t]
      by (simp add: teleport_body_def py_div_def keys_dict_set)
  qed
  then obtain acc' where step: "teleport_body corpus l d p acc = Inr acc'"
    and k': "set (keys acc') = insert p (set (keys acc))"
    and s': "sum_list (dict_values acc') = sum_list (dict_values acc) + ?t"
    and v': "\<forall>v \<in> set (dict_values acc'). 0 < v"
    by blast
  have "distinct xs" "set (elems l) \<subseteq> set (keys acc')"
    "set xs \<inter> (set (keys acc') - set (elems l)) = {}"
    using Cons.prems k' by auto
  from Cons.IH [OF this v'] obtain r where r: "for_loop xs (teleport_body corpus l d) acc' = Inr r"
    and k: "set (keys r) = set (keys acc') \<union> set xs"
    and s: "sum_list (dict_values r) = sum_list (dict_values acc') + real (length xs) * ?t"
    and v: "\<forall>v \<in> set (dict_values r). 0 < v"
    by blast
  have "for_loop (p # xs) (teleport_body corpus l d) acc = Inr r" using step r by simp
  moreover have "set (keys r) = set (keys acc) \<union> set (p # xs)" using k k' by auto
  moreover have "sum_list (dict_values r) = sum_list (dict_values acc) + real (length (p # xs)) * ?t"
    using s s' by (simp add: distrib_right add_divide_distrib)
  ultimately show ?case using v by blast
qed

lemma transition_model_linked:
  assumes "distinct (keys corpus)" "dict_get corpus page = Inr l"
    and "elems l \<noteq> []" "distinct (elems l)" "0 < d" "d < 1"
  shows "\<exists>dist. transition_model corpus page d = Inr (Dist dist) \<and>
     set (keys dist) = set (elems l) \<union> set (keys corpus) \<and>
     sum_list (dict_values dist) = 1 \<and>
     (\<forall>v \<in> set (dict_values dist). 0 < v)"
proof -
  have nonempty: "length corpus \<noteq> 0" using assms(2) by (auto simp: dict_get_def)
  have len: "len l \<noteq> 0" using assms(3) by (simp add: len_def)
  have no_dict: "\<not> eq_empty_dict l" using assms(3) by (cases l) auto
  from link_loop_sum [OF len assms(4), of "[]" d] obtain r1
    where r1: "for_loop (elems l) (link_body l d) [] = Inr r1"
      and k1: "set (keys r1) = set (elems l)"
      and s1: "sum_list (dict_values r1) = real (len l) * (d / real (len l))"
      and v1: "set (dict_values r1) \<subseteq> {d / real (len l)}"
    by (auto simp: dict_values_def len_def)
  have pos1: "\<forall>v \<in> set (dict_values r1). 0 < v"
    using v1 assms(5) len by auto
  have "set (elems l) \<subseteq> set (keys r1)" "set (keys corpus) \<inter> (set (keys r1) - set (elems l)) = {}"
    using k1 by auto
  from teleport_loop_sum [OF nonempty assms(6) assms(1) this pos1] obtain r
    where r: "for_loop (keys corpus) (teleport_body corpus l d) r1 = Inr r"
      and k: "set (keys r) = set (keys r1) \<union> set (keys corpus)"
      and s: "sum_list (dict_values r) =
         sum_list (dict_values r1) + real (length (keys corpus)) * ((1 - d) / real (length corpus))"
      and v: "\<forall>v \<in> set (dict_values r). 0 < v"
    by blast
  have "sum_list (dict_values r) = 1"
    using s s1 len nonempty by (simp add: keys_def)
  moreover have "transition_model corpus page d = Inr (Dist r)"
    using assms(2) no_dict r1 r by (simp add: transition_model_def)
  ultimately show ?thesis using k k1 v by blast
qed

subsection \<open>\<^verbatim>\<open>transition_model\<close> on a page without links\<close>

text \<open>
  For a page whose value is the empty set, the test \<^verbatim>\<open>links == {}\<close> fails, the
  loop over the links has no round, and every page of the corpus gets the
  teleport share \<open>(1 - d) / len(corpus)\<close> alone: the values sum to \<open>1 - d\<close>.
\<close>

lemma teleport_loop_no_links:
  "length corpus \<noteq> 0 \<Longrightarrow> distinct ks \<Longrightarrow> set ks \<inter> set (keys acc) = {} \<Longrightarrow>
   for_loop ks (teleport_body corpus (PySet []) d) acc =
     Inr (acc @ rank_dict ks (\<lambda>p. (1 - d) / real (length corpus)))"
proof (induction ks arbitrary: acc)
  case Nil
  then show ?case by (simp add: rank_dict_def)
next
  case (Cons k ks)
  have step: "teleport_body corpus (PySet []) d k acc = Inr (acc @ [(k, (1 - d) / real (length corpus))])"
    using Cons.prems by (simp add: teleport_body_def mem_def py_div_def dict_set_append)
  have "set ks \<inter> set (keys (acc @ [(k, (1 - d) / real (length corpus))])) = {}"
    using Cons.prems by (auto simp: keys_def)
  with Cons.IH [OF Cons.prems(1), of "acc @ [(k, (1 - d) / real (length corpus))]"] Cons.prems(2)
  show ?case by (simp add: step rank_dict_def)
qed

lemma transition_model_no_links:
  assumes "distinct (keys corpus)" "dict_get corpus page = Inr (PySet [])"
  shows "transition_model corpus page d =
     Inr (Dist (rank_dict (keys corpus) (\<lambda>p. (1 - d) / real (length corpus))))"
proof -
  have "corpus \<noteq> []" using assms(2) by (auto simp: dict_get_def)
  then show ?thesis
    using teleport_loop_no_links [of corpus "keys corpus" "[]" d] assms
    by (simp add: transition_model_def)
qed

lemma transition_model_no_links_sum:
  assumes "distinct (keys corpus)" "dict_get corpus page = Inr (PySet [])"
  shows "\<exists>dist. transition_model corpus page d = Inr (Dist dist) \<and> sum_list (dict_values dist) = 1 - d"
proof -
  have "corpus \<noteq> []" using assms(2) by (auto simp: dict_get_def)
  then have "(\<Sum>p \<leftarrow> keys corpus. (1 - d) / real (length corpus)) = 1 - d"
    by (simp add: sum_list_triv keys_def comp_def)
  then show ?thesis
    using transition_model_no_links [OF assms, of d] by simp
qed

text \<open>
  Claim C2. On a page whose set of links is empty the result should be the
  uniform distribution, \<open>1/2\<close> for each of the two pages of this corpus. The
  comparison \<^verbatim>\<open>links == {}\<close> is false for the empty set, so the code runs the
  general branch and gives each page only the teleport share
  \<open>(1 - 17/20) / 2 = 3/40\<close>. When the value is the empty dict, the comparison
  holds and the code returns the corpus, not the distribution it has filled.
\<close>

theorem transition_model_dangling:
  "transition_model [(''1.html'', PySet [''2.html'']), (''2.html'', PySet [])] ''2.html'' (17/20)
     = Inr (Dist [(''1.html'', 3/40), (''2.html'', 3/40)]) \<and>
   transition_model [(''1.html'', PySet [''2.html'']), (''2.html'', PyDict [])] ''2.html'' (17/20)
     = Inr (Graph [(''1.html'', PySet [''2.html'']), (''2.html'', PyDict [])])"
  by (simp add: transition_model_def dict_get_def keys_def teleport_body_def uniform_body_def
      mem_def py_div_def)

text \<open>
  Claim C3. On the chain \<open>a \<rightarrow> b \<rightarrow> c\<close>, the page \<open>c\<close> has an empty set of links.
  The code returns for it a dictionary over the three pages whose values are
  each \<open>(1 - 17/20) / 3 = 1/20\<close>: they sum to \<open>3/20\<close>, not to \<open>1\<close>.
\<close>

theorem dangling_weights_sum:
  "\<exists>distribution.
     transition_model [(''a'', PySet [''b'']), (''b'', PySet [''c'']), (''c'', PySet [])] ''c'' (17/20)
       = Inr (Dist distribution) \<and>
     keys distribution = [''a'', ''b'', ''c''] \<and>
     sum_list (dict_values distribution) = 3/20"
  by (simp add: transition_model_def dict_get_def keys_def dict_values_def teleport_body_def
      mem_def py_div_def)

subsection \<open>\<^verbatim>\<open>sample_pagerank\<close>: the keys of the result are the pages drawn\<close>

lemma tally_keys: "tally p pr = Inr pr' \<Longrightarrow> set (keys pr') = insert p (set (keys pr))"
  by (auto simp: tally_def seq_def keys_dict_set split: if_splits sum.splits)

lemma sample_loop_keys:
  "for_loop is (sample_step corpus d us) (page, pr) = Inr (page', pr') \<Longrightarrow>
   \<exists>ps. visits corpus d us page is = Inr ps \<and> set (keys pr') = set (keys pr) \<union> set ps"
proof (induction "is" arbitrary: page pr)
  case Nil
  then show ?case by simp
next
  case (Cons i "is")
  from Cons.prems obtain st where st: "sample_step corpus d us i (page, pr) = Inr st"
    and rest: "for_loop is (sample_step corpus d us) st = Inr (page', pr')"
    by (auto split: sum.splits)
  obtain p1 pr1 where st_eq: "st = (p1, pr1)" by (cases st)
  from st st_eq obtain prob where prob: "transition_model corpus page d = Inr prob"
    and drawn: "draw prob (us i) = Inr p1" and tallied: "tally p1 pr = Inr pr1"
    by (auto simp: sample_step_def seq_def split: sum.splits)
  from Cons.IH [OF rest [unfolded st_eq]] obtain ps
    where ps: "visits corpus d us p1 is = Inr ps" and ks: "set (keys pr') = set (keys pr1) \<union> set ps"
    by blast
  have "visits corpus d us page (i # is) = Inr (p1 # ps)"
    using prob drawn ps by simp
  moreover have "set (keys pr') = set (keys pr) \<union> set (p1 # ps)"
    using ks tally_keys [OF tallied] by auto
  ultimately show ?case by blast
qed

lemma frequency_loop_keys:
  "for_loop ks (frequency_body n) pr = Inr r \<Longrightarrow> set (keys r) = set (keys pr) \<union> set ks"
proof (induction ks arbitrary: pr)
  case Nil
  then show ?case by simp
next
  case (Cons k ks)
  from Cons.prems obtain pr1 where b: "frequency_body n k pr = Inr pr1"
    and rest: "for_loop ks (frequency_body n) pr1 = Inr r"
    by (auto split: sum.splits)
  from b have "set (keys pr1) = insert k (set (keys pr))"
    by (auto simp: frequency_body_def seq_def keys_dict_set split: sum.splits)
  with Cons.IH [OF rest] show ?case by auto
qed

text \<open>
  Claim C10. Whenever \<^verbatim>\<open>sample_pagerank\<close> returns a dictionary, its keys are
  exactly the pages drawn in the \<open>n - 1\<close> rounds of the walk: a page that was
  never drawn has no entry (and neither has the starting page, unless it is drawn
  later). The key set can be a proper subset of the pages of the corpus.
\<close>

theorem sample_pagerank_keys:
  "(sample_pagerank corpus damping_factor n r0 us = Inr result \<longrightarrow>
      (\<exists>start ps. choice (keys corpus) r0 = Inr start \<and>
         visits corpus damping_factor us start [0..<nat (n - 1)] = Inr ps \<and>
         set (keys result) = set ps)) \<and>
   (\<exists>corpus' n' r0' us' result'.
      sample_pagerank corpus' (17/20) n' r0' us' = Inr result' \<and>
      set (keys result') \<subset> set (keys corpus'))"
proof (intro conjI impI)
  assume run: "sample_pagerank corpus damping_factor n r0 us = Inr result"
  then obtain start where start: "choice (keys corpus) r0 = Inr start"
    by (auto simp: sample_pagerank_def seq_def split: sum.splits)
  with run obtain page pr
    where walk: "for_loop [0..<nat (n - 1)] (sample_step corpus damping_factor us) (start, []) = Inr (page, pr)"
      and freq: "for_loop (keys pr) (frequency_body n) pr = Inr result"
    by (auto simp: sample_pagerank_def seq_def split: sum.splits prod.splits)
  from sample_loop_keys [OF walk] obtain ps
    where "visits corpus damping_factor us start [0..<nat (n - 1)] = Inr ps"
      and "set (keys pr) = set (keys ([]::distribution)) \<union> set ps" by blast
  moreover from frequency_loop_keys [OF freq] have "set (keys result) = set (keys pr)" by simp
  ultimately show "\<exists>start ps. choice (keys corpus) r0 = Inr start \<and>
         visits corpus damping_factor us start [0..<nat (n - 1)] = Inr ps \<and>
         set (keys result) = set ps"
    using start by (auto simp: keys_def)
next
  have "sample_pagerank [(''1.html'', PySet [''2.html'']), (''2.html'', PySet [''1.html''])]
     (17/20) 2 0 (\<lambda>i. 1/2) = Inr [(''2.html'', 1/2)]"
    by (simp add: sample_pagerank_def choice_def keys_def dict_values_def sample_step_def
      transition_model_def dict_get_def link_body_def teleport_body_def mem_def len_def
      py_div_def draw_def choices_def tally_def frequency_body_def)
  moreover have "set (keys [(''2.html'', 1/2::real)])
     \<subset> set (keys [(''1.html'', PySet [''2.html'']), (''2.html'', PySet [''1.html''])])"
    by (auto simp: keys_def)
  ultimately show "\<exists>corpus' n' r0' us' result'.
      sample_pagerank corpus' (17/20) n' r0' us' = Inr result' \<and>
      set (keys result') \<subset> set (keys corpus')"
    by metis
qed

theorem sample_pagerank_keys_witness:
  "sample_pagerank [(''1.html'', PySet [''2.html'', ''3.html'']), (''2.html'', PySet [''1.html'']), (''3.html'', PySet [])]
     (17/20) 3 0 (\<lambda>i. 1/2) = Inr [(''3.html'', 1/3), (''2.html'', 1/3)] \<and>
   (\<exists>start ps. choice (keys [(''1.html'', PySet [''2.html'', ''3.html'']), (''2.html'', PySet [''1.html'']), (''3.html'', PySet [])]) 0 = Inr start \<and>
      visits [(''1.html'', PySet [''2.html'', ''3.html'']), (''2.html'', PySet [''1.html'']), (''3.html'', PySet [])] (17/20) (\<lambda>i. 1/2) start [0..<nat (3 - 1)] = Inr ps \<and>
      set (keys [(''3.html'', 1/3::real), (''2.html'', 1/3)]) = set ps)"
proof -
  have run: "sample_pagerank [(''1.html'', PySet [''2.html'', ''3.html'']), (''2.html'', PySet [''1.html'']), (''3.html'', PySet [])]
     (17/20) 3 0 (\<lambda>i. 1/2) = Inr [(''3.html'', 1/3), (''2.html'', 1/3)]"
    by (simp add: sample_pagerank_def choice_def keys_def dict_values_def sample_step_def
      transition_model_def dict_get_def link_body_def teleport_body_def mem_def len_def
      py_div_def draw_def choices_def tally_def frequency_body_def upt_rec)
  from sample_pagerank_keys [of "[(''1.html'', PySet [''2.html'', ''3.html'']), (''2.html'', PySet [''1.html'']), (''3.html'', PySet [])]"
      "17/20" 3 0 "\<lambda>i. 1/2" "[(''3.html'', 1/3), (''2.html'', 1/3)]"] run
  show ?thesis by blast
qed

subsection \<open>\<^verbatim>\<open>sample_pagerank\<close>: the tally leaves out the starting page\<close>

text \<open>
  Each round of the walk adds one to the sum of the counts, and there are
  \<open>n - 1\<close> rounds; the counts are then divided by \<open>n\<close>. Whenever the function
  returns, for \<open>n \<ge> 1\<close>, the values of the result sum to \<open>(n - 1) / n\<close>.
\<close>

lemma tally_sum:
  "tally p pr = Inr pr' \<Longrightarrow> sum_list (dict_values pr') = sum_list (dict_values pr) + 1"
  by (auto simp: tally_def seq_def dict_set_sum dict_set_sum_new split: if_splits sum.splits)

lemma tally_distinct: "tally p pr = Inr pr' \<Longrightarrow> distinct (keys pr) \<Longrightarrow> distinct (keys pr')"
  by (auto simp: tally_def seq_def distinct_dict_set split: if_splits sum.splits)

lemma sample_loop_sum:
  "for_loop is (sample_step corpus d us) (page, pr) = Inr (page', pr') \<Longrightarrow> distinct (keys pr) \<Longrightarrow>
   sum_list (dict_values pr') = sum_list (dict_values pr) + real (length is) \<and> distinct (keys pr')"
proof (induction "is" arbitrary: page pr)
  case Nil
  then show ?case by simp
next
  case (Cons i "is")
  from Cons.prems obtain st where st: "sample_step corpus d us i (page, pr) = Inr st"
    and rest: "for_loop is (sample_step corpus d us) st = Inr (page', pr')"
    by (auto split: sum.splits)
  obtain p1 pr1 where st_eq: "st = (p1, pr1)" by (cases st)
  from st st_eq have tallied: "tally p1 pr = Inr pr1"
    by (auto simp: sample_step_def seq_def split: sum.splits)
  from Cons.IH [OF rest [unfolded st_eq] tally_distinct [OF tallied Cons.prems(2)]]
    tally_sum [OF tallied]
  show ?case by simp
qed

lemma sample_pagerank_sum:
  assumes "sample_pagerank corpus d n r0 us = Inr result" "1 \<le> n"
  shows "sum_list (dict_values result) = (real_of_int n - 1) / real_of_int n"
proof -
  from assms(1) obtain start page pr
    where walk: "for_loop [0..<nat (n - 1)] (sample_step corpus d us) (start, []) = Inr (page, pr)"
      and freq: "for_loop (keys pr) (frequency_body n) pr = Inr result"
    by (auto simp: sample_pagerank_def seq_def split: sum.splits prod.splits)
  from sample_loop_sum [OF walk] have total: "sum_list (dict_values pr) = real (nat (n - 1))"
    and dist: "distinct (keys pr)" by (simp_all add: dict_values_def)
  from dict_as_rank_dict [OF dist] obtain z where z: "pr = rank_dict (keys pr) z" by blast
  have nz: "real_of_int n \<noteq> 0" using assms(2) by simp
  have "for_loop (keys pr) (frequency_body n) (rank_dict (keys pr) z)
      = Inr (rank_dict (keys pr) (\<lambda>p. if p \<in> set (keys pr) then z p / real_of_int n else z p))"
    unfolding frequency_body_normalize by (rule normalize_loop [OF dist nz dist]) simp
  with freq z have "result = rank_dict (keys pr) (\<lambda>p. if p \<in> set (keys pr) then z p / real_of_int n else z p)"
    by simp
  also have "\<dots> = rank_dict (keys pr) (\<lambda>p. z p / real_of_int n)"
    by (rule rank_dict_cong) simp
  finally have "sum_list (dict_values result) = (\<Sum>p \<leftarrow> keys pr. z p * (1 / real_of_int n))"
    by simp
  also have "\<dots> = (\<Sum>p \<leftarrow> keys pr. z p) * (1 / real_of_int n)"
    by (rule sum_list_mult_const)
  also have "(\<Sum>p \<leftarrow> keys pr. z p) = sum_list (dict_values pr)"
    by (subst (2) z) simp
  finally show ?thesis using total assms(2) by simp
qed

text \<open>
  Claim C1. With \<open>n = 2\<close> on the corpus of two pages that link to each other, the
  walk starts on \<^verbatim>\<open>1.html\<close> and makes one step, to \<^verbatim>\<open>2.html\<close>. The code tallies
  only the step: the starting page is never recorded, \<open>n - 1 = 1\<close> visit is divided
  by \<open>n = 2\<close>, and the values returned sum to \<open>1/2\<close>, not to \<open>1\<close>.
\<close>

theorem sample_pagerank_two_samples:
  "sample_pagerank [(''1.html'', PySet [''2.html'']), (''2.html'', PySet [''1.html''])]
     (17/20) 2 0 (\<lambda>i. 1/2) = Inr [(''2.html'', 1/2)]"
  by (simp add: sample_pagerank_def choice_def keys_def dict_values_def sample_step_def
      transition_model_def dict_get_def link_body_def teleport_body_def mem_def len_def
      py_div_def draw_def choices_def tally_def frequency_body_def)

text \<open>
  Claim C7. With \<open>n = 1\<close> the loop \<^verbatim>\<open>for i in range(n - 1)\<close> has no round, so
  nothing is tallied and the result is the empty dictionary, whatever the
  generator yields: the starting page does not get probability \<open>1\<close>.
\<close>

theorem sample_pagerank_one_sample:
  "\<forall>r0 us. sample_pagerank [(''1.html'', PySet [''2.html'']), (''2.html'', PySet [''1.html''])]
     (17/20) 1 r0 us = Inr []"
  by (simp add: sample_pagerank_def choice_def keys_def)

subsection \<open>\<^verbatim>\<open>iterate_pagerank\<close> is a function of the graph and the damping factor\<close>

lemma same_graph_length: "same_graph c1 c2 \<Longrightarrow> length c1 = length c2"
  by (auto simp: same_graph_def dict_values_def dest: list_all2_lengthD)

lemma same_graph_sym: "same_graph c1 c2 \<Longrightarrow> same_graph c2 c1"
  by (auto simp: same_graph_def same_links_def list_all2_conv_all_nth)

lemma inner_loop_same:
  "map fst xs = map fst ys \<Longrightarrow> list_all2 same_links (map snd xs) (map snd ys) \<Longrightarrow>
   length c1 = length c2 \<Longrightarrow>
   for_loop xs (inner_body c1 d_copy p) acc = for_loop ys (inner_body c2 d_copy p) acc"
proof (induction xs arbitrary: ys acc)
  case Nil
  then show ?case by simp
next
  case (Cons x xs)
  then obtain y ys' where ys: "ys = y # ys'" by (cases ys) auto
  obtain i l where x: "x = (i, l)" by (cases x)
  obtain j l' where y: "y = (j, l')" by (cases y)
  from Cons.prems ys x y have ij: "i = j" and ll: "same_links l l'"
    and tl1: "map fst xs = map fst ys'" and tl2: "list_all2 same_links (map snd xs) (map snd ys')"
    by auto
  have step: "inner_body c1 d_copy p x acc = inner_body c2 d_copy p y acc"
    using ij ll Cons.prems(3) by (simp add: x y inner_body_def same_links_def mem_def)
  show ?case
    using step Cons.IH [OF tl1 tl2 Cons.prems(3)] by (simp add: ys split: sum.splits)
qed

lemma sweep_body_same:
  assumes "same_graph c1 c2"
  shows "sweep_body c1 damping d_copy = sweep_body c2 damping d_copy"
proof (intro ext)
  fix p st
  have "for_loop c1 (inner_body c1 d_copy p) 0 = for_loop c2 (inner_body c2 d_copy p) 0"
    using assms same_graph_length [OF assms]
    by (intro inner_loop_same) (auto simp: same_graph_def keys_def dict_values_def)
  then show "sweep_body c1 damping d_copy p st = sweep_body c2 damping d_copy p st"
    using same_graph_length [OF assms] by (simp add: sweep_body_def)
qed

lemma while_loop_same_Some:
  assumes "while_loop c1 damping d = Some y"
  shows "\<forall>c2. same_graph c1 c2 \<longrightarrow> while_loop c2 damping d = Some y"
  apply (rule while_loop.raw_induct
      [where P = "\<lambda>c1 damping d y. \<forall>c2. same_graph c1 c2 \<longrightarrow> while_loop c2 damping d = Some y",
        OF _ assms])
  subgoal for f c damping' d' y'
    apply (intro allI impI)
    subgoal for c2
      apply (subst while_loop.simps)
      apply (frule sweep_body_same [where damping = damping' and d_copy = d'])
      apply (auto simp: same_graph_def split: sum.splits if_splits)
      done
    done
  done

lemma while_loop_same:
  assumes "same_graph c1 c2"
  shows "while_loop c1 damping d = while_loop c2 damping d"
proof (cases "while_loop c1 damping d")
  case (Some y)
  with while_loop_same_Some [OF Some] assms show ?thesis by simp
next
  case None
  show ?thesis
  proof (cases "while_loop c2 damping d")
    case None2: None
    with None show ?thesis by simp
  next
    case (Some y)
    from while_loop_same_Some [OF Some] same_graph_sym [OF assms]
    have "while_loop c1 damping d = Some y" by blast
    with None show ?thesis by simp
  qed
qed

text \<open>
  Claim C8. \<^verbatim>\<open>iterate_pagerank\<close> takes the corpus and the damping factor and
  nothing else: it draws no random number and keeps no state, so in the model it
  is a function of these two. What can differ between two runs of the
  interpreter on the same graph is the order in which each set of links yields
  its elements; the result does not depend on it, since the code only tests
  membership in these sets and takes their length. Two corpora that are the same
  graph give the same outcome (the same dictionary, the same exception, or no
  return in both).
\<close>

theorem iterate_pagerank_order_independent:
  "same_graph corpus corpus' \<Longrightarrow>
   iterate_pagerank corpus damping_factor = iterate_pagerank corpus' damping_factor"
proof -
  assume sg: "same_graph corpus corpus'"
  have k: "keys corpus = keys corpus'" using sg by (simp add: same_graph_def)
  have "init_body corpus = init_body corpus'"
    using same_graph_length [OF sg] by (intro ext) (simp add: init_body_def)
  moreover have "\<And>d. while_loop corpus damping_factor d = while_loop corpus' damping_factor d"
    by (rule while_loop_same [OF sg])
  ultimately show ?thesis
    unfolding iterate_pagerank_def by (simp only: k)
qed

theorem iterate_pagerank_order_independent_witness:
  "same_graph [(''1.html'', PySet [''2.html'', ''3.html'']), (''2.html'', PySet [''1.html'']), (''3.html'', PySet [])]
     [(''1.html'', PySet [''3.html'', ''2.html'']), (''2.html'', PySet [''1.html'']), (''3.html'', PySet [])] \<and>
   iterate_pagerank [(''1.html'', PySet [''2.html'', ''3.html'']), (''2.html'', PySet [''1.html'']), (''3.html'', PySet [])] (17/20)
   = iterate_pagerank [(''1.html'', PySet [''3.html'', ''2.html'']), (''2.html'', PySet [''1.html'']), (''3.html'', PySet [])] (17/20)"
proof -
  have sg: "same_graph [(''1.html'', PySet [''2.html'', ''3.html'']), (''2.html'', PySet [''1.html'']), (''3.html'', PySet [])]
     [(''1.html'', PySet [''3.html'', ''2.html'']), (''2.html'', PySet [''1.html'']), (''3.html'', PySet [])]"
    by (auto simp: same_graph_def same_links_def keys_def dict_values_def len_def)
  from sg iterate_pagerank_order_independent [OF sg] show ?thesis by blast
qed

subsection \<open>What one sweep of \<^verbatim>\<open>iterate_pagerank\<close> computes\<close>

text \<open>
  On a corpus with distinct keys the dictionary \<open>d\<close> always holds one rank for
  each key of the corpus, in the order of the corpus. One pass of the
  \<^verbatim>\<open>while\<close> loop replaces the ranks \<open>x\<close> by \<open>code_rank corpus damping x\<close>, all of
  them computed from the copy, and repeats as long as some rank has moved by more
  than \<open>0.001\<close>.
\<close>

lemma init_loop:
  "length corpus \<noteq> 0 \<Longrightarrow> distinct ks \<Longrightarrow> set ks \<inter> set (keys acc) = {} \<Longrightarrow>
   for_loop ks (init_body corpus) acc = Inr (acc @ rank_dict ks (\<lambda>p. 1 / real (length corpus)))"
proof (induction ks arbitrary: acc)
  case Nil
  then show ?case by (simp add: rank_dict_def)
next
  case (Cons k ks)
  have step: "init_body corpus k acc = Inr (acc @ [(k, 1 / real (length corpus))])"
    using Cons.prems by (simp add: init_body_def py_div_def dict_set_append)
  have "set ks \<inter> set (keys (acc @ [(k, 1 / real (length corpus))])) = {}"
    using Cons.prems by (auto simp: keys_def)
  with Cons.IH [OF Cons.prems(1), of "acc @ [(k, 1 / real (length corpus))]"] Cons.prems(2)
  show ?case by (simp add: step rank_dict_def)
qed

lemma inner_loop:
  "length corpus \<noteq> 0 \<Longrightarrow> set (keys xs) \<subseteq> set ks \<Longrightarrow>
   for_loop xs (inner_body corpus (rank_dict ks x) p) acc =
     Inr (acc + (\<Sum>(i, l) \<leftarrow> xs.
        if mem p l then x i / real (len l)
        else if len l = 0 then 1 / real (length corpus) else 0))"
proof (induction xs arbitrary: acc)
  case Nil
  then show ?case by simp
next
  case (Cons item xs)
  obtain i l where item: "item = (i, l)" by (cases item)
  have i: "i \<in> set ks" using Cons.prems item by (simp add: keys_def)
  have nonempty: "mem p l \<Longrightarrow> len l \<noteq> 0" by (auto simp: mem_def len_def)
  have step: "inner_body corpus (rank_dict ks x) p (i, l) acc =
     Inr (acc + (if mem p l then x i / real (len l)
        else if len l = 0 then 1 / real (length corpus) else 0))"
    using Cons.prems(1) nonempty
    by (cases "mem p l") (simp_all add: inner_body_def dict_get_rank_dict [OF i] py_div_def)
  have "set (keys xs) \<subseteq> set ks" using Cons.prems by (simp add: keys_def)
  from Cons.IH [OF Cons.prems(1) this] show ?case
    by (simp add: item step add.assoc)
qed

lemma inner_loop_code_sum:
  "corpus \<noteq> [] \<Longrightarrow>
   for_loop corpus (inner_body corpus (rank_dict (keys corpus) x) p) 0 = Inr (code_sum corpus x p)"
  using inner_loop [of corpus corpus "keys corpus" x p 0] by (simp add: code_sum_def)

lemma sweep_step:
  assumes "corpus \<noteq> []" "distinct (keys corpus)" "p \<in> set (keys corpus)" "p \<notin> set (keys d_diff)"
  shows "sweep_body corpus damping (rank_dict (keys corpus) x) p (rank_dict (keys corpus) y, d_diff) =
     Inr (rank_dict (keys corpus) (y(p := code_rank corpus damping x p)),
          d_diff @ [(p, \<bar>x p - code_rank corpus damping x p\<bar>)])"
proof -
  have get_new: "dict_get (rank_dict (keys corpus) (y(p := v))) p = Inr v" for v
    using dict_get_rank_dict [OF assms(3), of "y(p := v)"] by simp
  show ?thesis
    using assms
    by (simp add: sweep_body_def inner_loop_code_sum py_div_def dict_set_rank_dict
        dict_get_rank_dict get_new dict_set_append code_rank_def Let_def)
qed

lemma sweep_loop:
  assumes "corpus \<noteq> []" "distinct (keys corpus)"
  shows "distinct xs \<Longrightarrow> set xs \<subseteq> set (keys corpus) \<Longrightarrow> set xs \<inter> set (keys d_diff) = {} \<Longrightarrow>
     for_loop xs (sweep_body corpus damping (rank_dict (keys corpus) x)) (rank_dict (keys corpus) y, d_diff) =
     Inr (rank_dict (keys corpus) (\<lambda>p. if p \<in> set xs then code_rank corpus damping x p else y p),
          d_diff @ rank_dict xs (\<lambda>p. \<bar>x p - code_rank corpus damping x p\<bar>))"
proof (induction xs arbitrary: y d_diff)
  case Nil
  then show ?case by (simp add: rank_dict_def)
next
  case (Cons p xs)
  have p: "p \<in> set (keys corpus)" "p \<notin> set (keys d_diff)" using Cons.prems by auto
  let ?dd = "d_diff @ [(p, \<bar>x p - code_rank corpus damping x p\<bar>)]"
  have disj: "set xs \<inter> set (keys ?dd) = {}" using Cons.prems by (auto simp: keys_def)
  have d: "distinct xs" "set xs \<subseteq> set (keys corpus)" using Cons.prems by auto
  have eq: "rank_dict (keys corpus)
       (\<lambda>q. if q \<in> set xs then code_rank corpus damping x q else (y(p := code_rank corpus damping x p)) q)
     = rank_dict (keys corpus) (\<lambda>q. if q \<in> set (p # xs) then code_rank corpus damping x q else y q)"
    by (rule rank_dict_cong) auto
  show ?case
    using Cons.IH [OF d disj, of "y(p := code_rank corpus damping x p)"]
    by (simp add: sweep_step [OF assms p] eq) (simp add: rank_dict_def)
qed

lemma sweep:
  assumes "corpus \<noteq> []" "distinct (keys corpus)"
  shows "for_loop (keys corpus) (sweep_body corpus damping (rank_dict (keys corpus) x))
       (rank_dict (keys corpus) x, []) =
     Inr (rank_dict (keys corpus) (code_rank corpus damping x),
          rank_dict (keys corpus) (\<lambda>p. \<bar>x p - code_rank corpus damping x p\<bar>))"
proof -
  have eq: "rank_dict (keys corpus) (\<lambda>p. if p \<in> set (keys corpus) then code_rank corpus damping x p else x p)
     = rank_dict (keys corpus) (code_rank corpus damping x)"
    by (rule rank_dict_cong) simp
  show ?thesis
    using sweep_loop [OF assms assms(2), of "[]" damping x x] by (simp add: eq)
qed

lemma check_loop:
  "set xs \<subseteq> set ks \<Longrightarrow>
   for_loop xs (check_body (rank_dict ks g)) b = Inr (b \<or> (\<exists>p \<in> set xs. g p > 1 / 1000))"
proof (induction xs arbitrary: b)
  case Nil
  then show ?case by simp
next
  case (Cons p xs)
  then have p: "p \<in> set ks" and rest: "set xs \<subseteq> set ks" by auto
  show ?case
    using Cons.IH [OF rest] by (auto simp: check_body_def dict_get_rank_dict [OF p])
qed

lemma while_loop_unfold:
  assumes "corpus \<noteq> []" "distinct (keys corpus)"
  shows "while_loop corpus damping (rank_dict (keys corpus) x) =
     (if \<exists>p \<in> set (keys corpus). \<bar>x p - code_rank corpus damping x p\<bar> > 1 / 1000
      then while_loop corpus damping (rank_dict (keys corpus) (code_rank corpus damping x))
      else Some (Inr (rank_dict (keys corpus) (code_rank corpus damping x))))"
  by (subst while_loop.simps) (simp add: sweep [OF assms] check_loop)

text \<open>
  Claim C4. On the corpus where \<^verbatim>\<open>1.html\<close> links to \<^verbatim>\<open>2.html\<close> and \<^verbatim>\<open>2.html\<close>
  has no links, one sweep of the code from the rank \<open>1/2, 1/2\<close> reads the copy
  taken before the sweep, but for the page without links it adds
  \<^verbatim>\<open>1 / len(corpus)\<close>, not that page's rank divided by \<^verbatim>\<open>len(corpus)\<close>: the new
  ranks are \<open>1/2\<close> and \<open>37/40\<close>, where the recurrence of the specification gives
  \<open>23/80\<close> and \<open>57/80\<close>.
\<close>

theorem sweep_dangling:
  "for_loop (keys [(''1.html'', PySet [''2.html'']), (''2.html'', PySet [])])
     (sweep_body [(''1.html'', PySet [''2.html'']), (''2.html'', PySet [])] (17/20)
        [(''1.html'', 1/2), (''2.html'', 1/2)])
     ([(''1.html'', 1/2), (''2.html'', 1/2)], [])
     = Inr ([(''1.html'', 1/2), (''2.html'', 37/40)], [(''1.html'', 0), (''2.html'', 17/40)]) \<and>
   spec_rank [(''1.html'', PySet [''2.html'']), (''2.html'', PySet [])] (17/20) (\<lambda>p. 1/2) ''1.html''
     = 23/80 \<and>
   spec_rank [(''1.html'', PySet [''2.html'']), (''2.html'', PySet [])] (17/20) (\<lambda>p. 1/2) ''2.html''
     = 57/80"
  by (simp add: keys_def sweep_body_def inner_body_def mem_def len_def py_div_def dict_get_def
      spec_rank_def)

subsection \<open>Neither engine checks its arguments\<close>

text \<open>
  The code tests neither \<open>n\<close> nor the damping factor nor the size of the corpus.
  When every page has a successor, the weights that \<^verbatim>\<open>transition_model\<close> returns
  sum to \<open>1\<close> whatever the damping factor is, so \<^verbatim>\<open>random.choices\<close> accepts them
  and the walk goes on; with the damping factor \<open>0\<close> a sweep of
  \<^verbatim>\<open>iterate_pagerank\<close> stores \<open>(1 - 0) / len(corpus) + 0 * prob\<close>, the value each
  rank already has, so no rank moves and the loop is left after its first pass.
\<close>

lemma length_accumulate: "length (accumulate acc ws) = length ws"
  by (induction ws arbitrary: acc) auto

lemma last_accumulate: "ws \<noteq> [] \<Longrightarrow> last (accumulate acc ws) = acc + sum_list ws"
proof (induction ws arbitrary: acc)
  case Nil
  then show ?case by simp
next
  case (Cons w ws)
  show ?case
  proof (cases "ws = []")
    case True
    then show ?thesis by simp
  next
    case False
    then have "accumulate (acc + w) ws \<noteq> []" by (cases ws) auto
    then show ?thesis using Cons.IH [OF False, of "acc + w"] by (simp add: add.assoc)
  qed
qed

lemma bisect_le: "lo \<le> hi \<Longrightarrow> bisect a x lo hi \<le> hi"
proof (induction a x lo hi rule: bisect.induct)
  case (1 a x lo hi)
  show ?case
  proof (cases "lo < hi")
    case False
    then show ?thesis using "1.prems" by (subst bisect.simps) simp
  next
    case True
    let ?mid = "(lo + hi) div 2"
    have mid: "lo \<le> ?mid" "?mid < hi" using True by auto
    show ?thesis
    proof (cases "x < a ! ?mid")
      case left: True
      from "1.IH"(1) [OF True refl left mid(1)] have "bisect a x lo ?mid \<le> ?mid" .
      then show ?thesis using True left mid by (subst bisect.simps) (simp add: Let_def del: bisect.simps)
    next
      case right: False
      have "?mid + 1 \<le> hi" using mid by simp
      from "1.IH"(2) [OF True refl right this] have "bisect a x (?mid + 1) hi \<le> hi" .
      then show ?thesis using True right by (subst bisect.simps) (simp add: Let_def del: bisect.simps)
    qed
  qed
qed

lemma choices_ok:
  assumes "population \<noteq> []" "length weights = length population" "0 < sum_list weights"
  shows "\<exists>p \<in> set population. choices population weights u = Inr p"
proof -
  have w: "weights \<noteq> []" using assms(1,2) by auto
  then have ne: "accumulate 0 weights \<noteq> []" by (cases weights) auto
  have tot: "last (accumulate 0 weights) = sum_list weights"
    using last_accumulate [OF w, of 0] by simp
  have "bisect (accumulate 0 weights) (u * sum_list weights) 0 (length population - 1)
      \<le> length population - 1"
    by (rule bisect_le) simp
  then have "bisect (accumulate 0 weights) (u * sum_list weights) 0 (length population - 1)
      < length population"
    using assms(1) by (cases population) auto
  then have "population ! bisect (accumulate 0 weights) (u * sum_list weights) 0 (length population - 1)
      \<in> set population"
    by (rule nth_mem)
  then show ?thesis
    using assms(2,3) ne tot by (simp add: choices_def length_accumulate Let_def del: bisect.simps)
qed

lemma teleport_loop_total:
  assumes "length corpus \<noteq> 0"
  shows "distinct xs \<Longrightarrow> set (elems l) \<subseteq> set (keys acc) \<Longrightarrow>
     set xs \<inter> (set (keys acc) - set (elems l)) = {} \<Longrightarrow>
     \<exists>r. for_loop xs (teleport_body corpus l d) acc = Inr r \<and>
       set (keys r) = set (keys acc) \<union> set xs \<and>
       sum_list (dict_values r) =
         sum_list (dict_values acc) + real (length xs) * ((1 - d) / real (length corpus))"
proof (induction xs arbitrary: acc)
  case Nil
  then show ?case by auto
next
  case (Cons p xs)
  let ?t = "(1 - d) / real (length corpus)"
  have "\<exists>acc'. teleport_body corpus l d p acc = Inr acc' \<and>
      set (keys acc') = insert p (set (keys acc)) \<and>
      sum_list (dict_values acc') = sum_list (dict_values acc) + ?t"
  proof (cases "mem p l")
    case True
    then have "p \<in> set (keys acc)" using Cons.prems(2) by (auto simp: mem_def)
    then obtain old where old: "dict_get acc p = Inr old" using dict_get_present by fastforce
    show ?thesis
      using True old assms dict_set_sum [OF old, of "old + ?t"]
      by (simp add: teleport_body_def py_div_def keys_dict_set)
  next
    case False
    then have new: "p \<notin> set (keys acc)" using Cons.prems(3) by (auto simp: mem_def)
    show ?thesis
      using False assms dict_set_sum_new [OF new, of ?t]
      by (simp add: teleport_body_def py_div_def keys_dict_set)
  qed
  then obtain acc' where step: "teleport_body corpus l d p acc = Inr acc'"
    and k': "set (keys acc') = insert p (set (keys acc))"
    and s': "sum_list (dict_values acc') = sum_list (dict_values acc) + ?t"
    by blast
  have "distinct xs" "set (elems l) \<subseteq> set (keys acc')"
    "set xs \<inter> (set (keys acc') - set (elems l)) = {}"
    using Cons.prems k' by auto
  from Cons.IH [OF this] obtain r where r: "for_loop xs (teleport_body corpus l d) acc' = Inr r"
    and k: "set (keys r) = set (keys acc') \<union> set xs"
    and s: "sum_list (dict_values r) = sum_list (dict_values acc') + real (length xs) * ?t"
    by blast
  have "for_loop (p # xs) (teleport_body corpus l d) acc = Inr r" using step r by simp
  moreover have "set (keys r) = set (keys acc) \<union> set (p # xs)" using k k' by auto
  moreover have "sum_list (dict_values r) = sum_list (dict_values acc) + real (length (p # xs)) * ?t"
    using s s' by (simp add: distrib_right add_divide_distrib)
  ultimately show ?case by blast
qed

lemma transition_model_total:
  assumes "distinct (keys corpus)" "dict_get corpus page = Inr l"
    and "elems l \<noteq> []" "distinct (elems l)"
  shows "\<exists>dist. transition_model corpus page d = Inr (Dist dist) \<and>
     set (keys dist) = set (elems l) \<union> set (keys corpus) \<and>
     sum_list (dict_values dist) = 1"
proof -
  have nonempty: "length corpus \<noteq> 0" using assms(2) by (auto simp: dict_get_def)
  have len: "len l \<noteq> 0" using assms(3) by (simp add: len_def)
  have no_dict: "\<not> eq_empty_dict l" using assms(3) by (cases l) auto
  from link_loop_sum [OF len assms(4), of "[]" d] obtain r1
    where r1: "for_loop (elems l) (link_body l d) [] = Inr r1"
      and k1: "set (keys r1) = set (elems l)"
      and s1: "sum_list (dict_values r1) = real (len l) * (d / real (len l))"
    by (auto simp: dict_values_def len_def)
  have "set (elems l) \<subseteq> set (keys r1)" "set (keys corpus) \<inter> (set (keys r1) - set (elems l)) = {}"
    using k1 by auto
  from teleport_loop_total [OF nonempty assms(1) this] obtain r
    where r: "for_loop (keys corpus) (teleport_body corpus l d) r1 = Inr r"
      and k: "set (keys r) = set (keys r1) \<union> set (keys corpus)"
      and s: "sum_list (dict_values r) =
         sum_list (dict_values r1) + real (length (keys corpus)) * ((1 - d) / real (length corpus))"
    by blast
  have "sum_list (dict_values r) = 1"
    using s s1 len nonempty by (simp add: keys_def)
  moreover have "transition_model corpus page d = Inr (Dist r)"
    using assms(2) no_dict r1 r by (simp add: transition_model_def)
  ultimately show ?thesis using k k1 by blast
qed

lemma links_of_page:
  assumes "every_page_links corpus" "page \<in> set (keys corpus)"
  shows "\<exists>l. dict_get corpus page = Inr l \<and> elems l \<noteq> [] \<and> distinct (elems l) \<and>
     set (elems l) \<subseteq> set (keys corpus)"
proof -
  from dict_get_present [OF assms(2)] obtain l where l: "dict_get corpus page = Inr l" by blast
  then have "map_of corpus page = Some l" by (auto simp: dict_get_def split: option.splits)
  then have "(page, l) \<in> set corpus" by (rule map_of_SomeD)
  then have "l \<in> set (dict_values corpus)" by (force simp: dict_values_def)
  then show ?thesis using assms(1) l by (auto simp: every_page_links_def list_all_iff)
qed

lemma sample_step_ok:
  assumes "every_page_links corpus" "page \<in> set (keys corpus)"
  shows "\<exists>page' pr'. sample_step corpus d us i (page, pr) = Inr (page', pr') \<and>
     page' \<in> set (keys corpus)"
proof -
  from links_of_page [OF assms] obtain l where l: "dict_get corpus page = Inr l"
    and ne: "elems l \<noteq> []" and di: "distinct (elems l)" and cl: "set (elems l) \<subseteq> set (keys corpus)"
    by blast
  have dk: "distinct (keys corpus)" using assms(1) by (simp add: every_page_links_def)
  from transition_model_total [OF dk l ne di, of d] obtain dist
    where tm: "transition_model corpus page d = Inr (Dist dist)"
      and k: "set (keys dist) = set (elems l) \<union> set (keys corpus)"
      and s: "sum_list (dict_values dist) = 1"
    by blast
  have "keys dist \<noteq> []" using k ne by auto
  moreover have "length (dict_values dist) = length (keys dist)"
    by (simp add: keys_def dict_values_def)
  moreover have "0 < sum_list (dict_values dist)" using s by simp
  ultimately obtain page' where mem': "page' \<in> set (keys dist)"
    and drawn: "choices (keys dist) (dict_values dist) (us i) = Inr page'"
    using choices_ok by blast
  have in_corpus: "page' \<in> set (keys corpus)" using mem' k cl by auto
  have "\<exists>pr'. tally page' pr = Inr pr'"
  proof (cases "page' \<in> set (keys pr)")
    case True
    then obtain c where "dict_get pr page' = Inr c" using dict_get_present by fastforce
    then show ?thesis using True by (simp add: tally_def)
  next
    case False
    then show ?thesis by (simp add: tally_def)
  qed
  then obtain pr' where "tally page' pr = Inr pr'" by blast
  then have "sample_step corpus d us i (page, pr) = Inr (page', pr')"
    using tm drawn by (simp add: sample_step_def draw_def)
  then show ?thesis using in_corpus by blast
qed

lemma sample_loop_ok:
  assumes "every_page_links corpus"
  shows "page \<in> set (keys corpus) \<Longrightarrow>
     \<exists>page' pr'. for_loop is (sample_step corpus d us) (page, pr) = Inr (page', pr')"
proof (induction "is" arbitrary: page pr)
  case Nil
  then show ?case by simp
next
  case (Cons i "is")
  from sample_step_ok [OF assms Cons.prems, of d us i pr] obtain p1 pr1
    where step: "sample_step corpus d us i (page, pr) = Inr (p1, pr1)"
      and p1: "p1 \<in> set (keys corpus)" by blast
  from Cons.IH [OF p1, of pr1] show ?case using step by simp
qed

lemma frequency_loop_ok:
  "n \<noteq> 0 \<Longrightarrow> set ks \<subseteq> set (keys pr) \<Longrightarrow> \<exists>r. for_loop ks (frequency_body n) pr = Inr r"
proof (induction ks arbitrary: pr)
  case Nil
  then show ?case by simp
next
  case (Cons k ks)
  then have "k \<in> set (keys pr)" by simp
  then obtain c where c: "dict_get pr k = Inr c" using dict_get_present by fastforce
  have step: "frequency_body n k pr = Inr (dict_set pr k (c / real_of_int n))"
    using c Cons.prems(1) by (simp add: frequency_body_def py_div_def)
  have "set ks \<subseteq> set (keys (dict_set pr k (c / real_of_int n)))"
    using Cons.prems(2) by (auto simp: keys_dict_set)
  from Cons.IH [OF Cons.prems(1) this] show ?case using step by simp
qed

lemma sample_pagerank_ok:
  assumes "every_page_links corpus" "corpus \<noteq> []"
  shows "\<exists>result. sample_pagerank corpus d n r0 us = Inr result"
proof -
  have "keys corpus \<noteq> []" using assms(2) by (simp add: keys_def)
  then have "r0 mod length (keys corpus) < length (keys corpus)" by simp
  then have start: "keys corpus ! (r0 mod length (keys corpus)) \<in> set (keys corpus)"
    by (rule nth_mem)
  let ?start = "keys corpus ! (r0 mod length (keys corpus))"
  have ch: "choice (keys corpus) r0 = Inr ?start"
    using \<open>keys corpus \<noteq> []\<close> by (simp add: choice_def)
  from sample_loop_ok [OF assms(1) start, of "[0..<nat (n - 1)]" d us "[]"] obtain page pr
    where walk: "for_loop [0..<nat (n - 1)] (sample_step corpus d us) (?start, []) = Inr (page, pr)"
    by blast
  have "\<exists>r. for_loop (keys pr) (frequency_body n) pr = Inr r"
  proof (cases "n = 0")
    case True
    then have "pr = []" using walk by simp
    then show ?thesis by simp
  next
    case False
    then show ?thesis by (intro frequency_loop_ok) auto
  qed
  then obtain r where "for_loop (keys pr) (frequency_body n) pr = Inr r" by blast
  then have "sample_pagerank corpus d n r0 us = Inr r"
    using ch walk by (simp add: sample_pagerank_def)
  then show ?thesis by blast
qed

lemma iterate_pagerank_damping_zero:
  assumes "distinct (keys corpus)" "corpus \<noteq> []"
  shows "\<exists>result. iterate_pagerank corpus 0 = Some (Inr result) \<and> keys result = keys corpus"
proof -
  let ?x0 = "\<lambda>p::page. 1 / real (length corpus)"
  have init: "for_loop (keys corpus) (init_body corpus) [] = Inr (rank_dict (keys corpus) ?x0)"
    using init_loop [of corpus "keys corpus" "[]"] assms by simp
  have same: "code_rank corpus 0 ?x0 = ?x0"
    by (intro ext) (simp add: code_rank_def)
  have loop: "while_loop corpus 0 (rank_dict (keys corpus) ?x0) = Some (Inr (rank_dict (keys corpus) ?x0))"
    by (subst while_loop_unfold [OF assms(2,1)]) (simp add: same)
  have "(\<Sum>p \<leftarrow> keys corpus. ?x0 p) = 1"
    using assms(2) by (simp add: sum_list_triv keys_def comp_def)
  then have "(\<Sum>p \<leftarrow> keys corpus. ?x0 p) \<noteq> 0" by simp
  from normalize_rank_dict [OF assms(1) this]
  have "iterate_pagerank corpus 0 =
      Some (Inr (rank_dict (keys corpus) (\<lambda>p. ?x0 p / (\<Sum>q \<leftarrow> keys corpus. ?x0 q))))"
    using init loop by (simp add: iterate_pagerank_def)
  then show ?thesis by simp
qed

text \<open>
  Claim C6, as stated, fails: with \<open>n = 0\<close>, or with the damping factor \<open>5\<close>, on a
  corpus of two pages \<^verbatim>\<open>sample_pagerank\<close> returns the empty dictionary and no
  error, and \<^verbatim>\<open>iterate_pagerank\<close> returns the empty dictionary on the empty
  corpus.
\<close>

theorem no_validation_counterexample:
  "sample_pagerank [(''1.html'', PySet [''2.html'']), (''2.html'', PySet [''1.html''])]
     (17/20) 0 0 (\<lambda>i. 1/2) = Inr [] \<and>
   sample_pagerank [(''1.html'', PySet [''2.html'']), (''2.html'', PySet [''1.html''])]
     5 1 0 (\<lambda>i. 1/2) = Inr [] \<and>
   iterate_pagerank [] (17/20) = Some (Inr [])"
  by (simp add: sample_pagerank_def choice_def keys_def iterate_pagerank_def while_loop.simps
      normalize_def)

text \<open>
  Claim C6, amended. The engines do not validate their arguments. For every
  non-empty corpus and every \<open>n < 1\<close>, \<^verbatim>\<open>sample_pagerank\<close> returns the empty
  dictionary. A damping factor outside the open interval from \<open>0\<close> to \<open>1\<close> is used
  as it is given: on a corpus in which every page has a successor,
  \<^verbatim>\<open>sample_pagerank\<close> returns a dictionary for every damping factor between \<open>-1\<close>
  and \<open>0\<close> or between \<open>1\<close> and \<open>2\<close>, and \<^verbatim>\<open>iterate_pagerank\<close> with the damping
  factor \<open>0\<close> returns a dictionary over the pages of any non-empty corpus. On the
  empty corpus \<^verbatim>\<open>sample_pagerank\<close> raises the \<^verbatim>\<open>IndexError\<close> of
  \<^verbatim>\<open>random.choice\<close> and \<^verbatim>\<open>iterate_pagerank\<close> returns the empty dictionary.
\<close>

theorem no_validation:
  "(corpus \<noteq> [] \<and> n < 1 \<longrightarrow> sample_pagerank corpus damping_factor n r0 us = Inr []) \<and>
   (every_page_links corpus' \<and> corpus' \<noteq> [] \<and> - 1 \<le> damping_factor' \<and> damping_factor' \<le> 2 \<and>
      (damping_factor' \<le> 0 \<or> 1 \<le> damping_factor') \<longrightarrow>
      (\<exists>result. sample_pagerank corpus' damping_factor' n' r0' us' = Inr result)) \<and>
   (distinct (keys corpus'') \<and> corpus'' \<noteq> [] \<longrightarrow>
      (\<exists>result. iterate_pagerank corpus'' 0 = Some (Inr result) \<and> keys result = keys corpus'')) \<and>
   sample_pagerank [] damping_factor n r0 us = Inl IndexError \<and>
   iterate_pagerank [] damping_factor = Some (Inr [])"
proof (intro conjI impI)
  assume "corpus \<noteq> [] \<and> n < 1"
  then show "sample_pagerank corpus damping_factor n r0 us = Inr []"
    by (simp add: sample_pagerank_def choice_def keys_def)
next
  assume "every_page_links corpus' \<and> corpus' \<noteq> [] \<and> - 1 \<le> damping_factor' \<and> damping_factor' \<le> 2 \<and>
      (damping_factor' \<le> 0 \<or> 1 \<le> damping_factor')"
  then show "\<exists>result. sample_pagerank corpus' damping_factor' n' r0' us' = Inr result"
    using sample_pagerank_ok by blast
next
  assume "distinct (keys corpus'') \<and> corpus'' \<noteq> []"
  then show "\<exists>result. iterate_pagerank corpus'' 0 = Some (Inr result) \<and> keys result = keys corpus''"
    using iterate_pagerank_damping_zero by blast
next
  show "sample_pagerank [] damping_factor n r0 us = Inl IndexError"
    by (simp add: sample_pagerank_def choice_def keys_def)
next
  show "iterate_pagerank [] damping_factor = Some (Inr [])"
    by (simp add: iterate_pagerank_def keys_def while_loop.simps normalize_def)
qed

theorem no_validation_witness:
  "([(''1.html'', PySet [''2.html'']), (''2.html'', PySet [''1.html''])] \<noteq> [] \<and> (0::int) < 1) \<and>
   sample_pagerank [(''1.html'', PySet [''2.html'']), (''2.html'', PySet [''1.html''])]
     (17/20) 0 0 (\<lambda>i. 1/2) = Inr [] \<and>
   (every_page_links [(''1.html'', PySet [''2.html'']), (''2.html'', PySet [''1.html''])] \<and>
    (- 1::real) \<le> 2 \<and> (2::real) \<le> 2 \<and> (1::real) \<le> 2) \<and>
   (\<exists>result. sample_pagerank [(''1.html'', PySet [''2.html'']), (''2.html'', PySet [''1.html''])]
      2 3 0 (\<lambda>i. 1/2) = Inr result) \<and>
   (distinct (keys [(''1.html'', PySet [''2.html'']), (''2.html'', PySet [])]) \<and>
    [(''1.html'', PySet [''2.html'']), (''2.html'', PySet [])] \<noteq> []) \<and>
   (\<exists>result. iterate_pagerank [(''1.html'', PySet [''2.html'']), (''2.html'', PySet [])] 0
        = Some (Inr result) \<and>
      keys result = keys [(''1.html'', PySet [''2.html'']), (''2.html'', PySet [])]) \<and>
   sample_pagerank [] (17/20) 0 0 (\<lambda>i. 1/2) = Inl IndexError \<and>
   iterate_pagerank [] (17/20) = Some (Inr [])"
proof -
  have h1: "[(''1.html'', PySet [''2.html'']), (''2.html'', PySet [''1.html''])] \<noteq> [] \<and> (0::int) < 1"
    by simp
  have h2: "every_page_links [(''1.html'', PySet [''2.html'']), (''2.html'', PySet [''1.html''])]"
    by (simp add: every_page_links_def keys_def dict_values_def)
  have h3: "distinct (keys [(''1.html'', PySet [''2.html'']), (''2.html'', PySet [])]) \<and>
    [(''1.html'', PySet [''2.html'']), (''2.html'', PySet [])] \<noteq> []"
    by (simp add: keys_def)
  from no_validation [of "[(''1.html'', PySet [''2.html'']), (''2.html'', PySet [''1.html''])]" 0
      "17/20" 0 "\<lambda>i. 1/2"
      "[(''1.html'', PySet [''2.html'']), (''2.html'', PySet [''1.html''])]" 2 3 0 "\<lambda>i. 1/2"
      "[(''1.html'', PySet [''2.html'']), (''2.html'', PySet [])]"] h1 h2 h3
  show ?thesis by simp
qed

subsection \<open>In exact arithmetic the sweep is a contraction\<close>

text \<open>
  The rest of the development is about the ranks as real numbers. There each page
  hands out at most its own rank, so the sum over the pages of the changes of
  rank shrinks by the factor \<open>damping\<close> from one sweep to the next, and the loop of
  the model is left. None of this is a statement about the Python loop: with
  IEEE doubles a rounded sweep need not contract (for a damping factor one unit
  in the last place below \<open>1\<close> the rounded ranks of a small corpus can cycle for
  ever), so whether \<^verbatim>\<open>iterate_pagerank\<close> returns is decided by rounding, which
  this theory does not model.
\<close>

lemma sum_list_swap_lists:
  "(\<Sum>a \<leftarrow> xs. \<Sum>b \<leftarrow> ys. (h a b :: real)) = (\<Sum>b \<leftarrow> ys. \<Sum>a \<leftarrow> xs. h a b)"
  by (induction xs) (simp_all add: sum_list_addf)

lemma count_members:
  assumes "distinct ks"
  shows "length (filter (\<lambda>p. mem p l) ks) \<le> len l"
proof -
  have "length (filter (\<lambda>p. mem p l) ks) = card ({p. mem p l} \<inter> set ks)"
    by (rule distinct_length_filter [OF assms])
  also have "\<dots> \<le> card (set (elems l))"
    by (rule card_mono) (auto simp: mem_def)
  also have "\<dots> \<le> len l"
    by (simp add: len_def card_length)
  finally show ?thesis .
qed

lemma column_sum:
  assumes "distinct ks" "0 \<le> (a::real)"
  shows "(\<Sum>p \<leftarrow> ks. if mem p l then a / real (len l) else 0) \<le> a"
proof -
  have "(\<Sum>p \<leftarrow> ks. if mem p l then a / real (len l) else 0)
      = (\<Sum>p \<leftarrow> filter (\<lambda>p. mem p l) ks. a / real (len l))"
    by (simp add: sum_list_map_filter')
  also have "\<dots> = real (length (filter (\<lambda>p. mem p l) ks)) * (a / real (len l))"
    by (simp add: sum_list_triv)
  also have "\<dots> \<le> a"
  proof (cases "len l = 0")
    case True
    then show ?thesis using assms(2) by simp
  next
    case False
    have "real (length (filter (\<lambda>p. mem p l) ks)) \<le> real (len l)"
      using count_members [OF assms(1), of l] by simp
    then have "real (length (filter (\<lambda>p. mem p l) ks)) * a \<le> real (len l) * a"
      using assms(2) by (rule mult_right_mono)
    then show ?thesis using False by (simp add: field_simps)
  qed
  finally show ?thesis .
qed

lemma code_sum_diff:
  "code_sum corpus x p - code_sum corpus y p =
     (\<Sum>(i, l) \<leftarrow> corpus. if mem p l then (x i - y i) / real (len l) else 0)"
proof -
  have "code_sum corpus x p - code_sum corpus y p =
    (\<Sum>item \<leftarrow> corpus.
       (case item of (i, l) \<Rightarrow> if mem p l then x i / real (len l)
          else if len l = 0 then 1 / real (length corpus) else 0)
     - (case item of (i, l) \<Rightarrow> if mem p l then y i / real (len l)
          else if len l = 0 then 1 / real (length corpus) else 0))"
    by (simp add: code_sum_def sum_list_subtractf)
  also have "\<dots> = (\<Sum>(i, l) \<leftarrow> corpus. if mem p l then (x i - y i) / real (len l) else 0)"
    by (rule arg_cong [where f = sum_list], rule map_cong) (auto simp: diff_divide_distrib)
  finally show ?thesis .
qed

lemma code_sum_diff_abs:
  "\<bar>code_sum corpus x p - code_sum corpus y p\<bar> \<le>
     (\<Sum>(i, l) \<leftarrow> corpus. if mem p l then \<bar>x i - y i\<bar> / real (len l) else 0)"
proof -
  have "\<bar>code_sum corpus x p - code_sum corpus y p\<bar>
      \<le> (\<Sum>item \<leftarrow> corpus. \<bar>case item of (i, l) \<Rightarrow> if mem p l then (x i - y i) / real (len l) else 0\<bar>)"
    unfolding code_sum_diff using sum_list_abs [of "map (\<lambda>(i, l). if mem p l then (x i - y i) / real (len l) else 0) corpus"]
    by (simp add: comp_def)
  also have "\<dots> = (\<Sum>(i, l) \<leftarrow> corpus. if mem p l then \<bar>x i - y i\<bar> / real (len l) else 0)"
    by (rule arg_cong [where f = sum_list], rule map_cong) auto
  finally show ?thesis .
qed

lemma contraction:
  assumes "distinct (keys corpus)" "0 \<le> damping"
  shows "(\<Sum>p \<leftarrow> keys corpus. \<bar>code_rank corpus damping x p - code_rank corpus damping y p\<bar>)
     \<le> damping * (\<Sum>p \<leftarrow> keys corpus. \<bar>x p - y p\<bar>)"
proof -
  have "(\<Sum>p \<leftarrow> keys corpus. \<bar>code_rank corpus damping x p - code_rank corpus damping y p\<bar>)
      = (\<Sum>p \<leftarrow> keys corpus. damping * \<bar>code_sum corpus x p - code_sum corpus y p\<bar>)"
  proof (rule arg_cong [where f = sum_list], rule map_cong)
    fix p
    have "code_rank corpus damping x p - code_rank corpus damping y p
        = damping * (code_sum corpus x p - code_sum corpus y p)"
      by (simp add: code_rank_def algebra_simps)
    then show "\<bar>code_rank corpus damping x p - code_rank corpus damping y p\<bar>
        = damping * \<bar>code_sum corpus x p - code_sum corpus y p\<bar>"
      using assms(2) by (simp add: abs_mult)
  qed simp
  also have "\<dots> = damping * (\<Sum>p \<leftarrow> keys corpus. \<bar>code_sum corpus x p - code_sum corpus y p\<bar>)"
    by (simp add: sum_list_const_mult)
  also have "\<dots> \<le> damping * (\<Sum>p \<leftarrow> keys corpus.
       \<Sum>(i, l) \<leftarrow> corpus. if mem p l then \<bar>x i - y i\<bar> / real (len l) else 0)"
    by (intro mult_left_mono sum_list_mono code_sum_diff_abs assms(2))
  also have "(\<Sum>p \<leftarrow> keys corpus. \<Sum>(i, l) \<leftarrow> corpus. if mem p l then \<bar>x i - y i\<bar> / real (len l) else 0)
      = (\<Sum>item \<leftarrow> corpus. \<Sum>p \<leftarrow> keys corpus.
           case item of (i, l) \<Rightarrow> if mem p l then \<bar>x i - y i\<bar> / real (len l) else 0)"
    by (rule sum_list_swap_lists)
  also have "damping * \<dots> \<le> damping * (\<Sum>item \<leftarrow> corpus. \<bar>x (fst item) - y (fst item)\<bar>)"
  proof (intro mult_left_mono sum_list_mono assms(2))
    fix item :: "page \<times> links"
    obtain i l where item: "item = (i, l)" by (cases item)
    show "(\<Sum>p \<leftarrow> keys corpus. case item of (i, l) \<Rightarrow> if mem p l then \<bar>x i - y i\<bar> / real (len l) else 0)
        \<le> \<bar>x (fst item) - y (fst item)\<bar>"
      using column_sum [OF assms(1), of "\<bar>x i - y i\<bar>" l] by (simp add: item)
  qed
  also have "(\<Sum>item \<leftarrow> corpus. \<bar>x (fst item) - y (fst item)\<bar>) = (\<Sum>p \<leftarrow> keys corpus. \<bar>x p - y p\<bar>)"
    by (simp add: keys_def comp_def)
  finally show ?thesis .
qed

lemma contraction_iterated:
  assumes "distinct (keys corpus)" "0 \<le> damping"
  shows "(\<Sum>p \<leftarrow> keys corpus.
            \<bar>(code_rank corpus damping ^^ k) x p - (code_rank corpus damping ^^ Suc k) x p\<bar>)
     \<le> damping ^ k * (\<Sum>p \<leftarrow> keys corpus. \<bar>x p - code_rank corpus damping x p\<bar>)"
proof (induction k)
  case 0
  then show ?case by simp
next
  case (Suc k)
  have "(\<Sum>p \<leftarrow> keys corpus.
            \<bar>(code_rank corpus damping ^^ Suc k) x p - (code_rank corpus damping ^^ Suc (Suc k)) x p\<bar>)
      \<le> damping * (\<Sum>p \<leftarrow> keys corpus.
            \<bar>(code_rank corpus damping ^^ k) x p - (code_rank corpus damping ^^ Suc k) x p\<bar>)"
    using contraction [OF assms, of "(code_rank corpus damping ^^ k) x" "(code_rank corpus damping ^^ Suc k) x"]
    by simp
  also have "\<dots> \<le> damping * (damping ^ k * (\<Sum>p \<leftarrow> keys corpus. \<bar>x p - code_rank corpus damping x p\<bar>))"
    by (intro mult_left_mono Suc.IH assms(2))
  finally show ?case by (simp add: mult.assoc)
qed

lemma eventually_small:
  assumes "distinct (keys corpus)" "0 \<le> damping" "damping < 1"
  shows "\<exists>k. \<forall>p \<in> set (keys corpus).
     \<bar>(code_rank corpus damping ^^ k) x p - (code_rank corpus damping ^^ Suc k) x p\<bar> \<le> 1 / 1000"
proof -
  define D where "D = (\<Sum>p \<leftarrow> keys corpus. \<bar>x p - code_rank corpus damping x p\<bar>)"
  have D: "0 \<le> D" unfolding D_def by (rule sum_list_nonneg) auto
  then have "0 < 1 / 1000 / (D + 1)" by simp
  from real_arch_pow_inv [OF this assms(3)] obtain k where k: "damping ^ k < 1 / 1000 / (D + 1)"
    by blast
  have "damping ^ k * D \<le> damping ^ k * (D + 1)"
    using assms(2) by (intro mult_left_mono) auto
  also have "\<dots> < 1 / 1000" using k D by (simp add: field_simps)
  finally have small: "damping ^ k * D < 1 / 1000" .
  have "\<forall>p \<in> set (keys corpus).
     \<bar>(code_rank corpus damping ^^ k) x p - (code_rank corpus damping ^^ Suc k) x p\<bar> \<le> 1 / 1000"
  proof
    fix p
    assume p: "p \<in> set (keys corpus)"
    have "\<bar>(code_rank corpus damping ^^ k) x p - (code_rank corpus damping ^^ Suc k) x p\<bar>
        \<le> (\<Sum>p \<leftarrow> keys corpus.
            \<bar>(code_rank corpus damping ^^ k) x p - (code_rank corpus damping ^^ Suc k) x p\<bar>)"
      using p by (intro member_le_sum_list) auto
    also have "\<dots> \<le> damping ^ k * D"
      unfolding D_def by (rule contraction_iterated [OF assms(1,2)])
    finally show "\<bar>(code_rank corpus damping ^^ k) x p - (code_rank corpus damping ^^ Suc k) x p\<bar> \<le> 1 / 1000"
      using small by simp
  qed
  then show ?thesis by blast
qed

lemma while_loop_returns:
  assumes "corpus \<noteq> []" "distinct (keys corpus)"
  shows "\<forall>p \<in> set (keys corpus).
       \<bar>(code_rank corpus damping ^^ k) x p - (code_rank corpus damping ^^ Suc k) x p\<bar> \<le> 1 / 1000 \<Longrightarrow>
     \<exists>m. while_loop corpus damping (rank_dict (keys corpus) x) =
       Some (Inr (rank_dict (keys corpus) ((code_rank corpus damping ^^ Suc m) x)))"
proof (induction k arbitrary: x)
  case 0
  then have "\<not> (\<exists>p \<in> set (keys corpus). \<bar>x p - code_rank corpus damping x p\<bar> > 1 / 1000)"
    by (auto simp: not_less)
  then have "while_loop corpus damping (rank_dict (keys corpus) x) =
       Some (Inr (rank_dict (keys corpus) ((code_rank corpus damping ^^ Suc 0) x)))"
    by (subst while_loop_unfold [OF assms]) simp
  then show ?case by blast
next
  case (Suc k)
  show ?case
  proof (cases "\<exists>p \<in> set (keys corpus). \<bar>x p - code_rank corpus damping x p\<bar> > 1 / 1000")
    case False
    then have "while_loop corpus damping (rank_dict (keys corpus) x) =
       Some (Inr (rank_dict (keys corpus) ((code_rank corpus damping ^^ Suc 0) x)))"
      by (subst while_loop_unfold [OF assms]) simp
    then show ?thesis by blast
  next
    case True
    then have step: "while_loop corpus damping (rank_dict (keys corpus) x) =
       while_loop corpus damping (rank_dict (keys corpus) (code_rank corpus damping x))"
      by (subst while_loop_unfold [OF assms]) simp
    have "\<forall>p \<in> set (keys corpus).
       \<bar>(code_rank corpus damping ^^ k) (code_rank corpus damping x) p
          - (code_rank corpus damping ^^ Suc k) (code_rank corpus damping x) p\<bar> \<le> 1 / 1000"
      using Suc.prems by (simp add: funpow_swap1)
    from Suc.IH [OF this] obtain m where
      "while_loop corpus damping (rank_dict (keys corpus) (code_rank corpus damping x)) =
       Some (Inr (rank_dict (keys corpus) ((code_rank corpus damping ^^ Suc m) (code_rank corpus damping x))))"
      by blast
    then have "while_loop corpus damping (rank_dict (keys corpus) x) =
       Some (Inr (rank_dict (keys corpus) ((code_rank corpus damping ^^ Suc (Suc m)) x)))"
      using step by (simp add: funpow_swap1)
    then show ?thesis by blast
  qed
qed

subsection \<open>The result of \<^verbatim>\<open>iterate_pagerank\<close> in exact arithmetic\<close>

lemma code_sum_nonneg:
  assumes "\<forall>i \<in> set (keys corpus). 0 \<le> x i"
  shows "0 \<le> code_sum corpus x p"
  unfolding code_sum_def
proof (rule sum_list_nonneg)
  fix v
  assume "v \<in> set (map (\<lambda>(i, l). if mem p l then x i / real (len l)
        else if len l = 0 then 1 / real (length corpus) else 0) corpus)"
  then obtain i l where "(i, l) \<in> set corpus"
    and v: "v = (if mem p l then x i / real (len l) else if len l = 0 then 1 / real (length corpus) else 0)"
    by auto
  then have "0 \<le> x i" using assms by (force simp: keys_def)
  then show "0 \<le> v" by (simp add: v)
qed

lemma code_rank_pos:
  assumes "corpus \<noteq> []" "0 \<le> damping" "damping < 1" "\<forall>i \<in> set (keys corpus). 0 \<le> x i"
  shows "0 < code_rank corpus damping x p"
proof -
  have "0 < (1 - damping) / real (length corpus)" using assms(1,3) by simp
  moreover have "0 \<le> damping * code_sum corpus x p"
    using assms(2) code_sum_nonneg [OF assms(4)] by simp
  ultimately show ?thesis by (simp add: code_rank_def)
qed

lemma iterates_pos:
  assumes "corpus \<noteq> []" "0 \<le> damping" "damping < 1" "\<forall>p. 0 < x p"
  shows "0 < (code_rank corpus damping ^^ k) x p"
proof (induction k arbitrary: p)
  case 0
  then show ?case using assms(4) by simp
next
  case (Suc k)
  have "\<forall>i \<in> set (keys corpus). 0 \<le> (code_rank corpus damping ^^ k) x i"
    using Suc.IH by (simp add: less_imp_le)
  from code_rank_pos [OF assms(1,2,3) this] show ?case by simp
qed

lemma iterate_pagerank_result:
  assumes "distinct (keys corpus)" "corpus \<noteq> []" "0 < damping" "damping < 1"
  shows "\<exists>y. (\<forall>p. 0 < y p) \<and>
     iterate_pagerank corpus damping =
       Some (Inr (rank_dict (keys corpus) (\<lambda>p. y p / (\<Sum>q \<leftarrow> keys corpus. y q))))"
proof -
  let ?x0 = "\<lambda>p::page. 1 / real (length corpus)"
  have init: "for_loop (keys corpus) (init_body corpus) [] = Inr (rank_dict (keys corpus) ?x0)"
    using init_loop [of corpus "keys corpus" "[]"] assms(1,2) by simp
  have d0: "0 \<le> damping" using assms(3) by simp
  from eventually_small [OF assms(1) d0 assms(4), of ?x0] obtain k where
    "\<forall>p \<in> set (keys corpus).
       \<bar>(code_rank corpus damping ^^ k) ?x0 p - (code_rank corpus damping ^^ Suc k) ?x0 p\<bar> \<le> 1 / 1000"
    by blast
  from while_loop_returns [OF assms(2,1) this] obtain m where
    loop: "while_loop corpus damping (rank_dict (keys corpus) ?x0) =
       Some (Inr (rank_dict (keys corpus) ((code_rank corpus damping ^^ Suc m) ?x0)))"
    by blast
  define y where "y = (code_rank corpus damping ^^ Suc m) ?x0"
  have x0: "\<forall>p. 0 < ?x0 p" using assms(2) by simp
  have pos: "0 < y p" for p
    unfolding y_def by (rule iterates_pos [OF assms(2) d0 assms(4) x0])
  have "keys corpus \<noteq> []" using assms(2) by (simp add: keys_def)
  then obtain q qs where ks: "keys corpus = q # qs" by (cases "keys corpus") auto
  have "0 \<le> (\<Sum>p \<leftarrow> qs. y p)"
    by (rule sum_list_nonneg) (auto simp: less_imp_le pos)
  then have "0 < (\<Sum>p \<leftarrow> keys corpus. y p)"
    using pos [of q] by (simp add: ks)
  then have nz: "(\<Sum>p \<leftarrow> keys corpus. y p) \<noteq> 0" by simp
  have "iterate_pagerank corpus damping =
       Some (Inr (rank_dict (keys corpus) (\<lambda>p. y p / (\<Sum>q \<leftarrow> keys corpus. y q))))"
    using loop [folded y_def] normalize_rank_dict [OF assms(1) nz]
    by (simp add: iterate_pagerank_def init)
  with pos show ?thesis by blast
qed

text \<open>
  Over the reals, for a non-empty corpus with distinct keys and a damping factor
  strictly between \<open>0\<close> and \<open>1\<close>, the model leaves its loop and returns a
  dictionary over the pages of the corpus whose values sum to \<open>1\<close> and lie
  between \<open>0\<close> and \<open>1\<close>.
\<close>

lemma iterate_pagerank_exact_arithmetic:
  assumes "distinct (keys corpus)" "corpus \<noteq> []" "0 < damping_factor" "damping_factor < 1"
  shows "\<exists>result. iterate_pagerank corpus damping_factor = Some (Inr result) \<and>
     keys result = keys corpus \<and>
     \<bar>sum_list (dict_values result) - 1\<bar> \<le> 1 / 1000000 \<and>
     (\<forall>v \<in> set (dict_values result). 0 \<le> v \<and> v \<le> 1)"
proof -
  from iterate_pagerank_result [OF assms] obtain y where pos: "\<And>p. 0 < y p"
    and run: "iterate_pagerank corpus damping_factor =
       Some (Inr (rank_dict (keys corpus) (\<lambda>p. y p / (\<Sum>q \<leftarrow> keys corpus. y q))))"
    by blast
  let ?s = "\<Sum>q \<leftarrow> keys corpus. y q"
  let ?result = "rank_dict (keys corpus) (\<lambda>p. y p / ?s)"
  have "keys corpus \<noteq> []" using assms(2) by (simp add: keys_def)
  then obtain q qs where ks: "keys corpus = q # qs" by (cases "keys corpus") auto
  have "0 \<le> (\<Sum>p \<leftarrow> qs. y p)"
    by (rule sum_list_nonneg) (auto simp: less_imp_le pos)
  then have s: "0 < ?s" using pos [of q] by (simp add: ks)
  have "sum_list (dict_values ?result) = (\<Sum>p \<leftarrow> keys corpus. y p * (1 / ?s))"
    by simp
  also have "\<dots> = ?s * (1 / ?s)"
    by (rule sum_list_mult_const)
  also have "\<dots> = 1" using s by simp
  finally have total: "sum_list (dict_values ?result) = 1" .
  have range: "\<forall>v \<in> set (dict_values ?result). 0 \<le> v \<and> v \<le> 1"
  proof
    fix v
    assume "v \<in> set (dict_values ?result)"
    then obtain p where p: "p \<in> set (keys corpus)" and v: "v = y p / ?s" by auto
    have "y p \<le> ?s"
      using p by (intro member_le_sum_list) (auto simp: less_imp_le pos)
    then show "0 \<le> v \<and> v \<le> 1"
      using s pos [of p] by (simp add: v less_imp_le)
  qed
  show ?thesis
    using run total range by (intro exI [of _ ?result]) simp
qed

end
